theory Spec2Isabelle
  imports Main
begin

section \<open>Metrics of collector.go\<close>

text \<open>
  The five metric descriptors are the package variables of lines 18 to 23. A metric
  written by \<open>prometheus.MustNewConstMetric\<close> carries its descriptor, its value type, its
  value and its label values. A sample a registered collector writes itself is opaque to
  this package: \<open>DomainMetric\<close> with its payload.

  Values are \<open>float64\<close> in the source. Every value this package writes is integral (0, 1,
  the scrape count) or an elapsed time; they are modelled as \<open>nat\<close>, the elapsed time in
  ticks of a logical clock.
\<close>

definition namespace :: string where
  "namespace = ''frr''"

datatype desc = frrScrapesTotal | frrScrapeErrTotal | frrScrapeDuration | frrCollectorUp | frrUp

fun fqName :: "desc \<Rightarrow> string" where
  "fqName frrScrapesTotal = namespace @ ''_scrapes_total''"
| "fqName frrScrapeErrTotal = namespace @ ''_scrape_errors_total''"
| "fqName frrScrapeDuration = namespace @ ''_scrape_duration_seconds''"
| "fqName frrCollectorUp = namespace @ ''_collector_up''"
| "fqName frrUp = namespace @ ''_up''"

fun variableLabels :: "desc \<Rightarrow> string list" where
  "variableLabels frrScrapesTotal = []"
| "variableLabels frrScrapeErrTotal = []"
| "variableLabels frrScrapeDuration = [''collector'']"
| "variableLabels frrCollectorUp = [''collector'']"
| "variableLabels frrUp = []"

datatype valueType = CounterValue | GaugeValue

datatype metric = ConstMetric desc valueType nat "string list" | DomainMetric string

text \<open>
  A Go string is a sequence of bytes, here a list of 8-bit characters. \<open>ValidString\<close> is
  \<open>utf8.ValidString\<close>: the bytes are a sequence of well-formed UTF-8 encodings. A byte
  below \<open>0x80\<close> stands alone; a leading byte \<open>0xC2\<close> to \<open>0xDF\<close> takes one continuation
  byte, \<open>0xE0\<close> to \<open>0xEF\<close> two and \<open>0xF0\<close> to \<open>0xF4\<close> three; a continuation byte is
  \<open>0x80\<close> to \<open>0xBF\<close>, with a narrower range for the first one after \<open>0xE0\<close>, \<open>0xED\<close>,
  \<open>0xF0\<close> and \<open>0xF4\<close>; every other byte is invalid.
\<close>

definition continuation :: "nat \<Rightarrow> bool" where
  "continuation b = (0x80 \<le> b \<and> b \<le> 0xBF)"

definition second_of3 :: "nat \<Rightarrow> nat \<Rightarrow> bool" where
  "second_of3 b c =
     (if b = 0xE0 then 0xA0 \<le> c \<and> c \<le> 0xBF
      else if b = 0xED then 0x80 \<le> c \<and> c \<le> 0x9F
      else continuation c)"

definition second_of4 :: "nat \<Rightarrow> nat \<Rightarrow> bool" where
  "second_of4 b c =
     (if b = 0xF0 then 0x90 \<le> c \<and> c \<le> 0xBF
      else if b = 0xF4 then 0x80 \<le> c \<and> c \<le> 0x8F
      else continuation c)"

fun utf8_valid :: "nat list \<Rightarrow> bool" where
  "utf8_valid [] = True"
| "utf8_valid (b # bs) =
     (if b < 0x80 then utf8_valid bs
      else if 0xC2 \<le> b \<and> b \<le> 0xDF
      then 1 \<le> length bs \<and> continuation (bs ! 0) \<and> utf8_valid (drop 1 bs)
      else if 0xE0 \<le> b \<and> b \<le> 0xEF
      then 2 \<le> length bs \<and> second_of3 b (bs ! 0) \<and> continuation (bs ! 1)
           \<and> utf8_valid (drop 2 bs)
      else if 0xF0 \<le> b \<and> b \<le> 0xF4
      then 3 \<le> length bs \<and> second_of4 b (bs ! 0) \<and> continuation (bs ! 1)
           \<and> continuation (bs ! 2) \<and> utf8_valid (drop 3 bs)
      else False)"

definition ValidString :: "string \<Rightarrow> bool" where
  "ValidString s = utf8_valid (map of_char s)"

text \<open>
  \<open>MustNewConstMetric\<close> panics when \<open>NewConstMetric\<close> returns an error: the number of label
  values differs from the number of variable labels of the descriptor, or a label value
  is not valid UTF-8. \<open>None\<close> is that panic. (The five descriptors are well formed and the
  two value types are the library's, so no other error arises.)
\<close>

definition MustNewConstMetric :: "desc \<Rightarrow> valueType \<Rightarrow> nat \<Rightarrow> string list \<Rightarrow> metric option" where
  "MustNewConstMetric d vt v labelValues =
     (if length labelValues = length (variableLabels d) \<and> list_all ValidString labelValues
      then Some (ConstMetric d vt v labelValues)
      else None)"

text \<open>What \<open>Describe\<close> writes: a descriptor of this package or one of a registered collector.\<close>

datatype described = OwnDesc desc | CollectorDesc string

section \<open>Outcomes\<close>

text \<open>
  A channel operation or a call of a method of a registered collector blocks for ever,
  panics, or proceeds with a result.
\<close>

datatype 'a outcome = Blocks | Panics | Proceeds 'a

section \<open>Collectors\<close>

text \<open>
  A \<open>Collector\<close> holds three interfaces. Their implementations are outside this file; a
  value of the record gives what they do in one cycle: the name, the help text and the
  default flag of \<open>CLIHelper\<close>, the descriptors \<open>PromCollector.Describe\<close> writes, the
  samples \<open>PromCollector.Collect\<close> writes and how that call ends after it has written
  them (it never returns, it panics, or it returns), the slice \<open>Errors.CollectErrors\<close>
  returns and how that call ends. The methods of \<open>CLIHelper\<close> return, with the same
  value at every call.
\<close>

record collector =
  Name :: string
  Help :: string
  EnabledByDefault :: bool
  PromCollector_Describe :: "string list"
  PromCollector_Collect :: "string list"
  PromCollector_Collect_end :: "unit outcome"
  Errors_CollectErrors :: "string list"
  Errors_CollectErrors_end :: "unit outcome"

section \<open>Channels\<close>

text \<open>A buffered Go channel: the queued values, the capacity and the closed flag.\<close>

record 'a chan =
  buf :: "'a list"
  cap :: nat
  closed :: bool

definition make_chan :: "nat \<Rightarrow> 'a chan" where
  "make_chan n = \<lparr>buf = [], cap = n, closed = False\<rparr>"

text \<open>\<open>c <- v\<close> with no receiver waiting: queued when there is room, blocked otherwise.\<close>

definition chan_send :: "'a chan \<Rightarrow> 'a \<Rightarrow> 'a chan outcome" where
  "chan_send c v =
     (if closed c then Panics
      else if length (buf c) < cap c then Proceeds (c\<lparr>buf := buf c @ [v]\<rparr>)
      else Blocks)"

text \<open>
  \<open>v, more := <-c\<close> with no sender waiting: the oldest queued value; on an empty closed
  channel the zero value and \<open>more = false\<close>; on an empty open channel it blocks.
\<close>

definition chan_recv :: "int chan \<Rightarrow> (int \<times> bool \<times> int chan) outcome" where
  "chan_recv c =
     (case buf c of
        v # rest \<Rightarrow> Proceeds (v, True, c\<lparr>buf := rest\<rparr>)
      | [] \<Rightarrow> if closed c then Proceeds (0, False, c) else Blocks)"

definition chan_close :: "'a chan \<Rightarrow> 'a chan outcome" where
  "chan_close c = (if closed c then Panics else Proceeds (c\<lparr>closed := True\<rparr>))"

section \<open>processErrors\<close>

text \<open>
  The loop of \<open>processErrors\<close> (lines 97 to 106), with the channel and the local
  \<open>errors\<close> as its state. It returns the count and the drained channel. \<open>Blocks\<close> is a
  receive that never returns: the channel is empty and open.
\<close>

function processErrors_loop :: "int chan \<Rightarrow> int \<Rightarrow> (int \<times> int chan) outcome" where
  "processErrors_loop errCh n =
     (case chan_recv errCh of
        Blocks \<Rightarrow> Blocks
      | Panics \<Rightarrow> Panics
      | Proceeds r \<Rightarrow>
          (if \<not> fst (snd r) then Proceeds (n, snd (snd r))
           else processErrors_loop (snd (snd r)) (n + 1)))"
  by pat_completeness auto
termination
proof (relation "measure (\<lambda>(c, n). length (buf c))")
  show "wf (measure (\<lambda>(c, n). length (buf c)))"
    by simp
next
  fix errCh :: "int chan" and n :: int and r :: "int \<times> bool \<times> int chan"
  assume "chan_recv errCh = Proceeds r" and "\<not> \<not> fst (snd r)"
  then show "((snd (snd r), n + 1), (errCh, n)) \<in> measure (\<lambda>(c, n). length (buf c))"
    by (auto simp: chan_recv_def split: list.splits if_splits)
qed

definition processErrors :: "int chan \<Rightarrow> (int \<times> int chan) outcome" where
  "processErrors errCh = processErrors_loop errCh 0"

section \<open>The state of one Collect call\<close>

text \<open>
  \<open>frrTotalScrapeCount\<close> is a \<open>float64\<close> that starts at \<open>0.0\<close> and is changed by \<open>++\<close>
  only (lines 15 and 74), so it always holds a whole number. \<open>float64_incr\<close> is \<open>x++\<close> on
  a whole number \<open>x\<close> that a \<open>float64\<close> holds: the sum \<open>x + 1\<close> rounded to the nearest
  \<open>float64\<close>, a tie going to the even significand. Below \<open>2 ^ 53\<close> the sum is exact. From
  \<open>2 ^ 53\<close> to \<open>2 ^ 54\<close> a \<open>float64\<close> holds the even numbers only, \<open>x + 1\<close> is a tie
  between \<open>x\<close> and \<open>x + 2\<close>, and the result is the one whose half is even; so \<open>2 ^ 53\<close>
  stays \<open>2 ^ 53\<close>. From \<open>2 ^ 54\<close> on \<open>x\<close> is the nearest.
\<close>

definition float64_incr :: "nat \<Rightarrow> nat" where
  "float64_incr x =
     (if x < 2 ^ 53 then x + 1
      else if x < 2 ^ 54 \<and> (x div 2) mod 2 = 1 then x + 2
      else x)"

text \<open>
  The program counter of a \<open>runCollector\<close> goroutine (lines 108 to 126): the statement it
  executes next. \<open>T_Collect k\<close> is inside \<open>PromCollector.Collect\<close> with \<open>k\<close> samples written,
  \<open>T_Log k\<close> is at the head of the logging loop with \<open>k\<close> errors logged, \<open>T_WgDone\<close> is the
  deferred \<open>wg.Done()\<close>.
\<close>

datatype tpc =
  T_Now | T_Collect nat | T_CollectErrors | T_ErrSend | T_Up0 | T_Log nat | T_Up1
  | T_Duration | T_WgDone | T_Exit

text \<open>
  The locals of a goroutine: its collector, \<open>startTime\<close>, \<open>errors\<close>, the elapsed time it
  has passed to the duration sample, and whether it is the goroutine that panicked.
\<close>

record task =
  t_collector :: collector
  t_pc :: tpc
  t_startTime :: nat
  t_errors :: "string list"
  t_elapsed :: nat
  t_panicked :: bool

text \<open>
  The program counter of \<open>Collect\<close> (lines 73 to 95). \<open>M_Range k\<close> is at the head of the
  loop over \<open>e.Collectors\<close> with \<open>k\<close> goroutines started.
\<close>

datatype mpc =
  M_Incr | M_Scrapes | M_Make | M_Range nat | M_Wait | M_Close | M_ProcessErrors
  | M_FrrUp | M_Return

text \<open>
  The state: the two package variables, the receiver's \<open>Collectors\<close>, the sink \<open>ch\<close> (what
  this call has written to it, in order; the registry keeps receiving, so a send to it
  never blocks), the locals of \<open>Collect\<close>, the goroutines it has started, a logical clock
  read by \<open>time.Now\<close>, what \<open>log.Errorf\<close> has written (collector name and error; the
  call returns), and whether the process has panicked. No goroutine of this package recovers, so a panic in any of
  them ends the process. The model takes the panic as the last step of the process:
  nothing moves after it. (The deferred \<open>wg.Done()\<close> of the panicking goroutine runs
  while the process goes down; that is not a step of the model.)
\<close>

record state =
  frrTotalScrapeCount :: nat
  frrTotalErrorCount :: int
  e_Collectors :: "collector list"
  ch :: "metric list"
  errCh :: "int chan"
  wg :: nat
  errCount :: int
  mpc :: mpc
  tasks :: "task list"
  now :: nat
  logged :: "(string \<times> string) list"
  panicked :: bool

definition Collect_init :: "collector list \<Rightarrow> nat \<Rightarrow> int \<Rightarrow> state" where
  "Collect_init cs n k =
     \<lparr>frrTotalScrapeCount = n, frrTotalErrorCount = k, e_Collectors = cs, ch = [],
      errCh = make_chan 0, wg = 0, errCount = 0, mpc = M_Incr, tasks = [], now = 0,
      logged = [], panicked = False\<rparr>"

text \<open>What a step does, as seen from outside.\<close>

datatype action =
  A_Incr | A_Send metric | A_Make | A_Go nat | A_RangeDone | A_Wait | A_Close
  | A_ProcessErrors int | A_Now | A_CollectReturn | A_CollectErrors | A_ErrSend
  | A_Log string string | A_LogDone | A_WgDone | A_Panic

text \<open>
  A panic in \<open>Collect\<close> itself, and \<open>ch <- MustNewConstMetric(...)\<close> there: the panic of
  \<open>MustNewConstMetric\<close>, or the send.
\<close>

definition panic :: "state \<Rightarrow> (action \<times> state) option" where
  "panic s = Some (A_Panic, s\<lparr>panicked := True\<rparr>)"

definition send_ch :: "metric option \<Rightarrow> state \<Rightarrow> (action \<times> state) option" where
  "send_ch mo s =
     (case mo of None \<Rightarrow> panic s | Some m \<Rightarrow> Some (A_Send m, s\<lparr>ch := ch s @ [m]\<rparr>))"

section \<open>runCollector\<close>

definition set_task :: "nat \<Rightarrow> task \<Rightarrow> state \<Rightarrow> state" where
  "set_task i t s = s\<lparr>tasks := (tasks s)[i := t]\<rparr>"

definition new_task :: "collector \<Rightarrow> task" where
  "new_task c =
     \<lparr>t_collector = c, t_pc = T_Now, t_startTime = 0, t_errors = [], t_elapsed = 0,
      t_panicked = False\<rparr>"

text \<open>
  A panic in goroutine \<open>i\<close>. And \<open>ch <- MustNewConstMetric(...)\<close> in goroutine \<open>i\<close>: the
  panic of \<open>MustNewConstMetric\<close>, or the send, after which the goroutine is \<open>t'\<close>.
\<close>

definition task_panic :: "nat \<Rightarrow> state \<Rightarrow> (action \<times> state) option" where
  "task_panic i s =
     Some (A_Panic, set_task i ((tasks s ! i)\<lparr>t_panicked := True\<rparr>) (s\<lparr>panicked := True\<rparr>))"

definition task_send :: "nat \<Rightarrow> metric option \<Rightarrow> task \<Rightarrow> state \<Rightarrow> (action \<times> state) option" where
  "task_send i mo t' s =
     (case mo of
        None \<Rightarrow> task_panic i s
      | Some m \<Rightarrow> Some (A_Send m, set_task i t' (s\<lparr>ch := ch s @ [m]\<rparr>)))"

text \<open>
  One statement of goroutine \<open>i\<close>. \<open>None\<close>: the goroutine cannot move (it does not exist,
  it has returned, its send to \<open>errCh\<close> blocks, or a call of its collector never returns).
\<close>

definition runCollector_step :: "nat \<Rightarrow> state \<Rightarrow> (action \<times> state) option" where
  "runCollector_step i s =
     (if length (tasks s) \<le> i then None
      else
        let t = tasks s ! i; c = t_collector t in
        case t_pc t of
          T_Now \<Rightarrow> Some (A_Now, set_task i (t\<lparr>t_startTime := now s, t_pc := T_Collect 0\<rparr>) s)
        | T_Collect k \<Rightarrow>
            if k < length (PromCollector_Collect c)
            then task_send i (Some (DomainMetric (PromCollector_Collect c ! k)))
                   (t\<lparr>t_pc := T_Collect (k + 1)\<rparr>) s
            else (case PromCollector_Collect_end c of
                    Blocks \<Rightarrow> None
                  | Panics \<Rightarrow> task_panic i s
                  | Proceeds u \<Rightarrow>
                      Some (A_CollectReturn, set_task i (t\<lparr>t_pc := T_CollectErrors\<rparr>) s))
        | T_CollectErrors \<Rightarrow>
            (case Errors_CollectErrors_end c of
               Blocks \<Rightarrow> None
             | Panics \<Rightarrow> task_panic i s
             | Proceeds u \<Rightarrow>
                 let errs = Errors_CollectErrors c in
                 Some (A_CollectErrors,
                   set_task i (t\<lparr>t_errors := errs,
                                 t_pc := (if length errs > 0 then T_ErrSend else T_Up1)\<rparr>) s))
        | T_ErrSend \<Rightarrow>
            (case chan_send (errCh s) 1 of
               Blocks \<Rightarrow> None
             | Panics \<Rightarrow> task_panic i s
             | Proceeds q \<Rightarrow> Some (A_ErrSend, set_task i (t\<lparr>t_pc := T_Up0\<rparr>) (s\<lparr>errCh := q\<rparr>)))
        | T_Up0 \<Rightarrow>
            task_send i (MustNewConstMetric frrCollectorUp GaugeValue 0 [Name c])
              (t\<lparr>t_pc := T_Log 0\<rparr>) s
        | T_Log k \<Rightarrow>
            if k < length (t_errors t)
            then Some (A_Log (Name c) (t_errors t ! k),
                   set_task i (t\<lparr>t_pc := T_Log (k + 1)\<rparr>)
                     (s\<lparr>logged := logged s @ [(Name c, t_errors t ! k)]\<rparr>))
            else Some (A_LogDone, set_task i (t\<lparr>t_pc := T_Duration\<rparr>) s)
        | T_Up1 \<Rightarrow>
            task_send i (MustNewConstMetric frrCollectorUp GaugeValue 1 [Name c])
              (t\<lparr>t_pc := T_Duration\<rparr>) s
        | T_Duration \<Rightarrow>
            task_send i
              (MustNewConstMetric frrScrapeDuration GaugeValue (now s - t_startTime t) [Name c])
              (t\<lparr>t_elapsed := now s - t_startTime t, t_pc := T_WgDone\<rparr>) s
        | T_WgDone \<Rightarrow>
            if wg s = 0 then task_panic i s
            else Some (A_WgDone, set_task i (t\<lparr>t_pc := T_Exit\<rparr>) (s\<lparr>wg := wg s - 1\<rparr>))
        | T_Exit \<Rightarrow> None)"

section \<open>Collect\<close>

text \<open>
  One statement of \<open>Collect\<close>. \<open>wg.Add(1)\<close> and the \<open>go\<close> statement after it are one step;
  the call of \<open>processErrors\<close> is one step (every goroutine has returned by then). \<open>None\<close>:
  \<open>Collect\<close> cannot move (\<open>wg.Wait()\<close> with a positive counter, a receive that blocks, or
  it has returned).
\<close>

definition Collect_step :: "state \<Rightarrow> (action \<times> state) option" where
  "Collect_step s =
     (case mpc s of
        M_Incr \<Rightarrow>
          Some (A_Incr, s\<lparr>frrTotalScrapeCount := float64_incr (frrTotalScrapeCount s), mpc := M_Scrapes\<rparr>)
      | M_Scrapes \<Rightarrow>
          send_ch (MustNewConstMetric frrScrapesTotal CounterValue (frrTotalScrapeCount s) [])
            (s\<lparr>mpc := M_Make\<rparr>)
      | M_Make \<Rightarrow> Some (A_Make, s\<lparr>errCh := make_chan 1024, wg := 0, mpc := M_Range 0\<rparr>)
      | M_Range k \<Rightarrow>
          if k < length (e_Collectors s)
          then Some (A_Go k,
                 s\<lparr>wg := wg s + 1, tasks := tasks s @ [new_task (e_Collectors s ! k)],
                   mpc := M_Range (k + 1)\<rparr>)
          else Some (A_RangeDone, s\<lparr>mpc := M_Wait\<rparr>)
      | M_Wait \<Rightarrow> if wg s = 0 then Some (A_Wait, s\<lparr>mpc := M_Close\<rparr>) else None
      | M_Close \<Rightarrow>
          (case chan_close (errCh s) of
             Proceeds q \<Rightarrow> Some (A_Close, s\<lparr>errCh := q, mpc := M_ProcessErrors\<rparr>)
           | _ \<Rightarrow> panic s)
      | M_ProcessErrors \<Rightarrow>
          (case processErrors (errCh s) of
             Blocks \<Rightarrow> None
           | Panics \<Rightarrow> panic s
           | Proceeds r \<Rightarrow>
               Some (A_ProcessErrors (fst r), s\<lparr>errCh := snd r, errCount := fst r, mpc := M_FrrUp\<rparr>))
      | M_FrrUp \<Rightarrow>
          send_ch (MustNewConstMetric frrUp GaugeValue
                     (if errCount s < int (length (e_Collectors s)) then 1 else 0) [])
            (s\<lparr>mpc := M_Return\<rparr>)
      | M_Return \<Rightarrow> None)"

section \<open>Interleavings\<close>

text \<open>
  The goroutines run concurrently. A schedule names who moves next, \<open>Collect\<close> itself or
  goroutine \<open>i\<close>; every interleaving of the statements is the run of some schedule. A
  scheduled actor that cannot move is skipped, and after a panic no actor moves. A step
  is one statement (one channel operation, one call of a collector's method, one
  iteration of a loop) and takes one tick of the clock. The trace lists the steps taken,
  oldest first, each with its actor.
\<close>

datatype actor = Main | Task nat

type_synonym event = "actor \<times> action"

definition step :: "actor \<Rightarrow> state \<Rightarrow> (event \<times> state) option" where
  "step a s =
     (if panicked s then None
      else map_option (\<lambda>(x, s'). ((a, x), s'\<lparr>now := now s' + 1\<rparr>))
             (case a of Main \<Rightarrow> Collect_step s | Task i \<Rightarrow> runCollector_step i s))"

fun exec :: "actor list \<Rightarrow> event list \<times> state \<Rightarrow> event list \<times> state" where
  "exec [] c = c"
| "exec (a # as) (tr, s) =
     (case step a s of None \<Rightarrow> exec as (tr, s) | Some (e, s') \<Rightarrow> exec as (tr @ [e], s'))"

definition run :: "collector list \<Rightarrow> nat \<Rightarrow> int \<Rightarrow> actor list \<Rightarrow> event list \<times> state" where
  "run cs n k sched = exec sched ([], Collect_init cs n k)"

section \<open>Describe\<close>

text \<open>
  \<open>Describe\<close> (lines 61 to 70) writes descriptors to its channel: the five of this
  package, then those of each collector. The result is the sequence written.
\<close>

fun Describe_range :: "collector list \<Rightarrow> described list" where
  "Describe_range [] = []"
| "Describe_range (c # cs) = map CollectorDesc (PromCollector_Describe c) @ Describe_range cs"

definition Describe :: "collector list \<Rightarrow> described list" where
  "Describe cs =
     [OwnDesc frrScrapesTotal, OwnDesc frrScrapeErrTotal, OwnDesc frrUp,
      OwnDesc frrScrapeDuration, OwnDesc frrCollectorUp] @ Describe_range cs"

section \<open>Successive calls\<close>

text \<open>
  The package variables at process start (lines 15 and 16), and their values after a
  sequence of \<open>Collect\<close> calls made one after the other, each with the collectors'
  behaviour in that cycle and its own schedule. \<open>run\<close> and \<open>Collect_calls\<close> are calls that
  do not overlap: while a call runs, nothing else touches the package variables.
\<close>

definition process_start :: "nat \<times> int" where
  "process_start = (0, 0)"

fun Collect_calls :: "(collector list \<times> actor list) list \<Rightarrow> nat \<times> int \<Rightarrow> nat \<times> int" where
  "Collect_calls [] g = g"
| "Collect_calls (call # rest) g =
     Collect_calls rest
       (frrTotalScrapeCount (snd (run (fst call) (fst g) (snd g) (snd call))),
        frrTotalErrorCount (snd (run (fst call) (fst g) (snd g) (snd call))))"

section \<open>Two overlapping calls\<close>

text \<open>
  \<open>Collect\<close> may be called again while a call is still running. Each call has its own
  sink, \<open>errCh\<close>, wait group and goroutines; the package variables are shared and no lock
  guards them (lines 15, 16 and 74), and so are the clock and the life of the process.
  A schedule of two calls names the call and the actor that moves next; after a step of
  one call, the other sees the shared part as that step left it. The increment of
  line 74 is taken as one step here, as in \<open>Collect_step\<close>.
\<close>

datatype invocation = First | Second

definition shared :: "state \<Rightarrow> state \<Rightarrow> state" where
  "shared s' s =
     s\<lparr>frrTotalScrapeCount := frrTotalScrapeCount s', frrTotalErrorCount := frrTotalErrorCount s',
       now := now s', panicked := panicked s'\<rparr>"

fun exec2 :: "(invocation \<times> actor) list \<Rightarrow> (event list \<times> state) \<times> (event list \<times> state)
    \<Rightarrow> (event list \<times> state) \<times> (event list \<times> state)" where
  "exec2 [] c = c"
| "exec2 ((First, a) # rest) ((tr1, s1), (tr2, s2)) =
     (case step a s1 of
        None \<Rightarrow> exec2 rest ((tr1, s1), (tr2, s2))
      | Some (e, s1') \<Rightarrow> exec2 rest ((tr1 @ [e], s1'), (tr2, shared s1' s2)))"
| "exec2 ((Second, a) # rest) ((tr1, s1), (tr2, s2)) =
     (case step a s2 of
        None \<Rightarrow> exec2 rest ((tr1, s1), (tr2, s2))
      | Some (e, s2') \<Rightarrow> exec2 rest ((tr1, shared s2' s1), (tr2 @ [e], s2')))"

definition run2 :: "collector list \<Rightarrow> collector list \<Rightarrow> nat \<Rightarrow> int \<Rightarrow> (invocation \<times> actor) list
    \<Rightarrow> (event list \<times> state) \<times> (event list \<times> state)" where
  "run2 cs1 cs2 n k sched =
     exec2 sched (([], Collect_init cs1 n k), ([], Collect_init cs2 n k))"

section \<open>Reading a trace\<close>

text \<open>The steps of one actor, and the metrics written to the sink, in order.\<close>

definition acts_of :: "actor \<Rightarrow> event list \<Rightarrow> action list" where
  "acts_of a tr = map snd (filter (\<lambda>e. fst e = a) tr)"

fun sent :: "action \<Rightarrow> metric list" where
  "sent (A_Send m) = [m]"
| "sent _ = []"

definition sends :: "event list \<Rightarrow> metric list" where
  "sends tr = concat (map (\<lambda>e. sent (snd e)) tr)"

text \<open>The descriptor of a metric of this package; a collector's own sample has none.\<close>

fun desc_of :: "metric \<Rightarrow> desc option" where
  "desc_of (ConstMetric d vt v ls) = Some d"
| "desc_of (DomainMetric x) = None"

text \<open>A collector failed in this cycle: \<open>len(errors) > 0\<close> at line 116.\<close>

definition failed :: "collector \<Rightarrow> bool" where
  "failed c = (length (Errors_CollectErrors c) > 0)"

text \<open>
  A collector behaves in a cycle: its name is valid UTF-8, and its \<open>Collect\<close> and its
  \<open>CollectErrors\<close> return.
\<close>

definition behaves :: "collector \<Rightarrow> bool" where
  "behaves c =
     (ValidString (Name c) \<and> PromCollector_Collect_end c = Proceeds ()
      \<and> Errors_CollectErrors_end c = Proceeds ())"

text \<open>The step is a write of the collector's up sample or of its duration sample.\<close>

fun is_status :: "action \<Rightarrow> bool" where
  "is_status (A_Send (ConstMetric d vt v ls)) = (d = frrCollectorUp \<or> d = frrScrapeDuration)"
| "is_status _ = False"

fun is_domain :: "action \<Rightarrow> bool" where
  "is_domain (A_Send (DomainMetric x)) = True"
| "is_domain _ = False"

section \<open>What each actor has done, by its program counter\<close>

text \<open>
  The steps a goroutine has taken are determined by where it stands, and by whether it
  has panicked there. \<open>collected\<close> is lines 110 to 114, \<open>verdict\<close> lines 116 to 124.
\<close>

definition up_sample :: "collector \<Rightarrow> nat \<Rightarrow> action" where
  "up_sample c v = A_Send (ConstMetric frrCollectorUp GaugeValue v [Name c])"

definition duration_sample :: "collector \<Rightarrow> nat \<Rightarrow> action" where
  "duration_sample c d = A_Send (ConstMetric frrScrapeDuration GaugeValue d [Name c])"

definition produced :: "collector \<Rightarrow> nat \<Rightarrow> action list" where
  "produced c k = A_Now # map (\<lambda>x. A_Send (DomainMetric x)) (take k (PromCollector_Collect c))"

definition collected :: "collector \<Rightarrow> action list" where
  "collected c =
     produced c (length (PromCollector_Collect c)) @ [A_CollectReturn, A_CollectErrors]"

definition verdict :: "collector \<Rightarrow> action list" where
  "verdict c =
     (if Errors_CollectErrors c = [] then [up_sample c 1]
      else [A_ErrSend, up_sample c 0] @ map (A_Log (Name c)) (Errors_CollectErrors c)
           @ [A_LogDone])"

fun task_hist_pc :: "collector \<Rightarrow> nat \<Rightarrow> tpc \<Rightarrow> action list" where
  "task_hist_pc c d T_Now = []"
| "task_hist_pc c d (T_Collect k) = produced c k"
| "task_hist_pc c d T_CollectErrors =
     produced c (length (PromCollector_Collect c)) @ [A_CollectReturn]"
| "task_hist_pc c d T_ErrSend = collected c"
| "task_hist_pc c d T_Up0 = collected c @ [A_ErrSend]"
| "task_hist_pc c d (T_Log k) =
     collected c @ [A_ErrSend, up_sample c 0]
     @ map (A_Log (Name c)) (take k (Errors_CollectErrors c))"
| "task_hist_pc c d T_Up1 = collected c"
| "task_hist_pc c d T_Duration = collected c @ verdict c"
| "task_hist_pc c d T_WgDone = collected c @ verdict c @ [duration_sample c d]"
| "task_hist_pc c d T_Exit = collected c @ verdict c @ [duration_sample c d, A_WgDone]"

definition task_hist :: "task \<Rightarrow> action list" where
  "task_hist t =
     task_hist_pc (t_collector t) (t_elapsed t) (t_pc t) @ (if t_panicked t then [A_Panic] else [])"

text \<open>What a goroutine's locals hold, by where it stands.\<close>

fun task_ok_pc :: "collector \<Rightarrow> string list \<Rightarrow> tpc \<Rightarrow> bool" where
  "task_ok_pc c es T_Now = True"
| "task_ok_pc c es (T_Collect k) = (k \<le> length (PromCollector_Collect c))"
| "task_ok_pc c es T_CollectErrors = True"
| "task_ok_pc c es T_ErrSend = (es = Errors_CollectErrors c \<and> es \<noteq> [])"
| "task_ok_pc c es T_Up0 = (es = Errors_CollectErrors c \<and> es \<noteq> [])"
| "task_ok_pc c es (T_Log k) = (es = Errors_CollectErrors c \<and> es \<noteq> [] \<and> k \<le> length es)"
| "task_ok_pc c es T_Up1 = (es = Errors_CollectErrors c \<and> es = [])"
| "task_ok_pc c es T_Duration = (es = Errors_CollectErrors c)"
| "task_ok_pc c es T_WgDone = (es = Errors_CollectErrors c)"
| "task_ok_pc c es T_Exit = (es = Errors_CollectErrors c)"

definition task_ok :: "task \<Rightarrow> bool" where
  "task_ok t = task_ok_pc (t_collector t) (t_errors t) (t_pc t)"

text \<open>The goroutine has completed its send to \<open>errCh\<close>.\<close>

fun signalled_pc :: "collector \<Rightarrow> tpc \<Rightarrow> bool" where
  "signalled_pc c T_Up0 = True"
| "signalled_pc c (T_Log k) = True"
| "signalled_pc c T_Duration = (Errors_CollectErrors c \<noteq> [])"
| "signalled_pc c T_WgDone = (Errors_CollectErrors c \<noteq> [])"
| "signalled_pc c T_Exit = (Errors_CollectErrors c \<noteq> [])"
| "signalled_pc c _ = False"

definition signalled :: "task \<Rightarrow> bool" where
  "signalled t = signalled_pc (t_collector t) (t_pc t)"

definition nsignalled :: "state \<Rightarrow> nat" where
  "nsignalled s = length (filter signalled (tasks s))"

definition scrapes_sample :: "nat \<Rightarrow> action" where
  "scrapes_sample v = A_Send (ConstMetric frrScrapesTotal CounterValue v [])"

definition frrUp_sample :: "nat \<Rightarrow> action" where
  "frrUp_sample v = A_Send (ConstMetric frrUp GaugeValue v [])"

definition started :: "nat \<Rightarrow> nat \<Rightarrow> action list" where
  "started v k = [A_Incr, scrapes_sample v, A_Make] @ map A_Go [0..<k]"

fun main_hist_pc :: "nat \<Rightarrow> nat \<Rightarrow> int \<Rightarrow> mpc \<Rightarrow> action list" where
  "main_hist_pc len v ec M_Incr = []"
| "main_hist_pc len v ec M_Scrapes = [A_Incr]"
| "main_hist_pc len v ec M_Make = [A_Incr, scrapes_sample v]"
| "main_hist_pc len v ec (M_Range k) = started v k"
| "main_hist_pc len v ec M_Wait = started v len @ [A_RangeDone]"
| "main_hist_pc len v ec M_Close = started v len @ [A_RangeDone, A_Wait]"
| "main_hist_pc len v ec M_ProcessErrors = started v len @ [A_RangeDone, A_Wait, A_Close]"
| "main_hist_pc len v ec M_FrrUp =
     started v len @ [A_RangeDone, A_Wait, A_Close, A_ProcessErrors ec]"
| "main_hist_pc len v ec M_Return =
     started v len @ [A_RangeDone, A_Wait, A_Close, A_ProcessErrors ec,
                      frrUp_sample (if ec < int len then 1 else 0)]"

definition main_hist :: "state \<Rightarrow> action list" where
  "main_hist s =
     main_hist_pc (length (e_Collectors s)) (frrTotalScrapeCount s) (errCount s) (mpc s)"

text \<open>The number of goroutines \<open>Collect\<close> has started, by where it stands.\<close>

fun spawned :: "nat \<Rightarrow> mpc \<Rightarrow> nat" where
  "spawned len M_Incr = 0"
| "spawned len M_Scrapes = 0"
| "spawned len M_Make = 0"
| "spawned len (M_Range k) = k"
| "spawned len _ = len"

fun joined :: "mpc \<Rightarrow> bool" where
  "joined M_Close = True"
| "joined M_ProcessErrors = True"
| "joined M_FrrUp = True"
| "joined M_Return = True"
| "joined _ = False"

section \<open>The invariant of a call\<close>

definition inv_static :: "collector list \<Rightarrow> nat \<Rightarrow> int \<Rightarrow> state \<Rightarrow> bool" where
  "inv_static cs n k s =
     (e_Collectors s = cs \<and> frrTotalErrorCount s = k
      \<and> frrTotalScrapeCount s = (if mpc s = M_Incr then n else float64_incr n))"

definition inv_tasks :: "collector list \<Rightarrow> state \<Rightarrow> bool" where
  "inv_tasks cs s =
     (spawned (length cs) (mpc s) \<le> length cs
      \<and> map t_collector (tasks s) = take (spawned (length cs) (mpc s)) cs
      \<and> list_all task_ok (tasks s))"

definition inv_hist :: "event list \<Rightarrow> state \<Rightarrow> bool" where
  "inv_hist tr s =
     (acts_of Main tr = main_hist s
      \<and> (\<forall>i. acts_of (Task i) tr = (if i < length (tasks s) then task_hist (tasks s ! i) else [])))"

definition inv_wg :: "state \<Rightarrow> bool" where
  "inv_wg s =
     (wg s = length (filter (\<lambda>t. t_pc t \<noteq> T_Exit) (tasks s))
      \<and> (joined (mpc s) \<longrightarrow> wg s = 0))"

fun inv_errCh_pc :: "mpc \<Rightarrow> int chan \<Rightarrow> int \<Rightarrow> nat \<Rightarrow> bool" where
  "inv_errCh_pc M_Incr q ec m = True"
| "inv_errCh_pc M_Scrapes q ec m = True"
| "inv_errCh_pc M_Make q ec m = True"
| "inv_errCh_pc M_ProcessErrors q ec m =
     (q = \<lparr>buf = replicate m 1, cap = 1024, closed = True\<rparr> \<and> m \<le> 1024)"
| "inv_errCh_pc M_FrrUp q ec m = (q = \<lparr>buf = [], cap = 1024, closed = True\<rparr> \<and> ec = int m)"
| "inv_errCh_pc M_Return q ec m = (q = \<lparr>buf = [], cap = 1024, closed = True\<rparr> \<and> ec = int m)"
| "inv_errCh_pc _ q ec m =
     (q = \<lparr>buf = replicate m 1, cap = 1024, closed = False\<rparr> \<and> m \<le> 1024)"

definition inv_errCh :: "state \<Rightarrow> bool" where
  "inv_errCh s = inv_errCh_pc (mpc s) (errCh s) (errCount s) (nsignalled s)"

definition inv_sink :: "event list \<Rightarrow> state \<Rightarrow> bool" where
  "inv_sink tr s =
     (ch s = sends tr \<and> length (filter (\<lambda>e. snd e = A_ErrSend) tr) = nsignalled s)"

text \<open>The process has panicked exactly when one of the goroutines has.\<close>

definition inv_panic :: "state \<Rightarrow> bool" where
  "inv_panic s = ((\<not> panicked s) = list_all (\<lambda>t. \<not> t_panicked t) (tasks s))"

definition Collect_inv :: "collector list \<Rightarrow> nat \<Rightarrow> int \<Rightarrow> event list \<times> state \<Rightarrow> bool" where
  "Collect_inv cs n k c =
     (inv_static cs n k (snd c) \<and> inv_tasks cs (snd c) \<and> inv_hist (fst c) (snd c)
      \<and> inv_wg (snd c) \<and> inv_errCh (snd c) \<and> inv_sink (fst c) (snd c) \<and> inv_panic (snd c))"

section \<open>A sample cycle\<close>

text \<open>
  Two collectors in one cycle: \<open>bgp\<close> writes two samples and reports no error, \<open>ospf\<close>
  writes one sample and reports two errors. In \<open>demo_sched\<close> the two goroutines alternate;
  \<open>Collect\<close> is scheduled once while both still run (its \<open>wg.Wait()\<close> cannot move then).
\<close>

definition demo_bgp :: collector where
  "demo_bgp = \<lparr>Name = ''bgp'', Help = ''BGP'', EnabledByDefault = True,
     PromCollector_Describe = [''bgp_peers''], PromCollector_Collect = [''p1'', ''p2''],
     PromCollector_Collect_end = Proceeds (), Errors_CollectErrors = [],
     Errors_CollectErrors_end = Proceeds ()\<rparr>"

definition demo_ospf :: collector where
  "demo_ospf = \<lparr>Name = ''ospf'', Help = ''OSPF'', EnabledByDefault = False,
     PromCollector_Describe = [''ospf_neighbors''], PromCollector_Collect = [''o1''],
     PromCollector_Collect_end = Proceeds (), Errors_CollectErrors = [''timeout'', ''parse''],
     Errors_CollectErrors_end = Proceeds ()\<rparr>"

definition demo_sched :: "actor list" where
  "demo_sched =
     [Main, Main, Main, Main, Main, Main,
      Task 1, Task 0, Task 1, Task 0, Task 1, Task 0, Task 1, Task 0, Task 1, Task 0,
      Main, Task 1, Task 0, Task 1, Task 0, Task 1, Task 0, Task 1, Task 1, Task 1,
      Main, Main, Main, Main]"

definition demo_trace :: "event list" where
  "demo_trace =
     [(Main, A_Incr), (Main, A_Send (ConstMetric frrScrapesTotal CounterValue 1 [])),
      (Main, A_Make), (Main, A_Go 0), (Main, A_Go 1), (Main, A_RangeDone),
      (Task 1, A_Now), (Task 0, A_Now), (Task 1, A_Send (DomainMetric ''o1'')),
      (Task 0, A_Send (DomainMetric ''p1'')), (Task 1, A_CollectReturn),
      (Task 0, A_Send (DomainMetric ''p2'')), (Task 1, A_CollectErrors),
      (Task 0, A_CollectReturn), (Task 1, A_ErrSend), (Task 0, A_CollectErrors),
      (Task 1, A_Send (ConstMetric frrCollectorUp GaugeValue 0 [''ospf''])),
      (Task 0, A_Send (ConstMetric frrCollectorUp GaugeValue 1 [''bgp''])),
      (Task 1, A_Log ''ospf'' ''timeout''),
      (Task 0, A_Send (ConstMetric frrScrapeDuration GaugeValue 12 [''bgp''])),
      (Task 1, A_Log ''ospf'' ''parse''), (Task 0, A_WgDone), (Task 1, A_LogDone),
      (Task 1, A_Send (ConstMetric frrScrapeDuration GaugeValue 17 [''ospf''])),
      (Task 1, A_WgDone), (Main, A_Wait), (Main, A_Close), (Main, A_ProcessErrors 1),
      (Main, A_Send (ConstMetric frrUp GaugeValue 1 []))]"

definition demo_final :: state where
  "demo_final =
     \<lparr>frrTotalScrapeCount = 1, frrTotalErrorCount = 0, e_Collectors = [demo_bgp, demo_ospf],
      ch = [ConstMetric frrScrapesTotal CounterValue 1 [], DomainMetric ''o1'',
            DomainMetric ''p1'', DomainMetric ''p2'',
            ConstMetric frrCollectorUp GaugeValue 0 [''ospf''],
            ConstMetric frrCollectorUp GaugeValue 1 [''bgp''],
            ConstMetric frrScrapeDuration GaugeValue 12 [''bgp''],
            ConstMetric frrScrapeDuration GaugeValue 17 [''ospf''],
            ConstMetric frrUp GaugeValue 1 []],
      errCh = \<lparr>buf = [], cap = 1024, closed = True\<rparr>, wg = 0, errCount = 1, mpc = M_Return,
      tasks =
        [\<lparr>t_collector = demo_bgp, t_pc = T_Exit, t_startTime = 7, t_errors = [],
           t_elapsed = 12, t_panicked = False\<rparr>,
         \<lparr>t_collector = demo_ospf, t_pc = T_Exit, t_startTime = 6,
           t_errors = [''timeout'', ''parse''], t_elapsed = 17, t_panicked = False\<rparr>],
      now = 29, logged = [(''ospf'', ''timeout''), (''ospf'', ''parse'')], panicked = False\<rparr>"

text \<open>
  Three collectors that stop a cycle: the name of \<open>demo_latin1\<close> is the single byte
  \<open>0xFF\<close>, which is not valid UTF-8; the \<open>Collect\<close> of \<open>demo_stuck\<close> never returns; the
  \<open>CollectErrors\<close> of \<open>demo_crash\<close> panics.
\<close>

definition demo_latin1 :: collector where
  "demo_latin1 = demo_bgp\<lparr>Name := [CHR 0xFF], PromCollector_Collect := [''d1'']\<rparr>"

definition demo_stuck :: collector where
  "demo_stuck = demo_bgp\<lparr>PromCollector_Collect_end := Blocks\<rparr>"

definition demo_crash :: collector where
  "demo_crash = demo_bgp\<lparr>Errors_CollectErrors_end := Panics\<rparr>"

text \<open>The descriptor of the sample a step writes, if it writes one of this package's.\<close>

fun sample_of :: "action \<Rightarrow> desc option" where
  "sample_of (A_Send m) = desc_of m"
| "sample_of _ = None"

section \<open>The steps left\<close>

text \<open>
  The number of steps a goroutine still has to take, by where it stands, and the number
  of steps of the whole call: those of \<open>Collect\<close>, of the goroutines it has started and
  of those it has yet to start.
\<close>

definition verdict_rest :: "nat \<Rightarrow> nat" where
  "verdict_rest m = (if m > 0 then m + 5 else 3)"

fun task_rest_pc :: "collector \<Rightarrow> string list \<Rightarrow> tpc \<Rightarrow> nat" where
  "task_rest_pc c es T_Now =
     length (PromCollector_Collect c) + 3 + verdict_rest (length (Errors_CollectErrors c))"
| "task_rest_pc c es (T_Collect j) =
     (length (PromCollector_Collect c) - j) + 2 + verdict_rest (length (Errors_CollectErrors c))"
| "task_rest_pc c es T_CollectErrors = 1 + verdict_rest (length (Errors_CollectErrors c))"
| "task_rest_pc c es T_ErrSend = length es + 5"
| "task_rest_pc c es T_Up0 = length es + 4"
| "task_rest_pc c es (T_Log j) = (length es - j) + 3"
| "task_rest_pc c es T_Up1 = 3"
| "task_rest_pc c es T_Duration = 2"
| "task_rest_pc c es T_WgDone = 1"
| "task_rest_pc c es T_Exit = 0"

definition task_rest :: "task \<Rightarrow> nat" where
  "task_rest t = task_rest_pc (t_collector t) (t_errors t) (t_pc t)"

definition unstarted_rest :: "collector list \<Rightarrow> nat" where
  "unstarted_rest cs = sum_list (map (\<lambda>c. 1 + task_rest (new_task c)) cs)"

fun main_rest :: "collector list \<Rightarrow> mpc \<Rightarrow> nat" where
  "main_rest cs M_Incr = 8 + unstarted_rest cs"
| "main_rest cs M_Scrapes = 7 + unstarted_rest cs"
| "main_rest cs M_Make = 6 + unstarted_rest cs"
| "main_rest cs (M_Range j) = 5 + unstarted_rest (drop j cs)"
| "main_rest cs M_Wait = 4"
| "main_rest cs M_Close = 3"
| "main_rest cs M_ProcessErrors = 2"
| "main_rest cs M_FrrUp = 1"
| "main_rest cs M_Return = 0"

definition work :: "state \<Rightarrow> nat" where
  "work s = main_rest (e_Collectors s) (mpc s) + sum_list (map task_rest (tasks s))"

section \<open>The invariant holds in every run\<close>

declare processErrors_loop.simps [simp del]

lemma processErrors_loop_closed:
  "processErrors_loop \<lparr>buf = replicate m 1, cap = q, closed = True\<rparr> n
     = Proceeds (n + int m, \<lparr>buf = [], cap = q, closed = True\<rparr>)"
proof (induction m arbitrary: n)
  case 0
  show ?case by (subst processErrors_loop.simps) (simp add: chan_recv_def)
next
  case (Suc m)
  show ?case
    by (subst processErrors_loop.simps) (simp add: chan_recv_def Suc)
qed

lemma processErrors_closed:
  "processErrors \<lparr>buf = replicate m 1, cap = q, closed = True\<rparr>
     = Proceeds (int m, \<lparr>buf = [], cap = q, closed = True\<rparr>)"
  by (simp add: processErrors_def processErrors_loop_closed)

lemma acts_of_snoc:
  "acts_of a (tr @ [(b, x)]) = (if a = b then acts_of a tr @ [x] else acts_of a tr)"
  by (simp add: acts_of_def)

lemma sends_snoc: "sends (tr @ [(b, x)]) = sends tr @ sent x"
  by (simp add: sends_def)

lemma Collect_inv_init: "Collect_inv cs n k ([], Collect_init cs n k)"
  by (simp add: Collect_inv_def Collect_init_def inv_static_def inv_tasks_def inv_hist_def
      inv_wg_def inv_errCh_def inv_sink_def inv_panic_def acts_of_def sends_def main_hist_def
      nsignalled_def)

lemmas main_defs = step_def Collect_step_def send_ch_def panic_def MustNewConstMetric_def

lemma errCh_closed_iff:
  "inv_errCh s \<Longrightarrow> mpc s = M_Close \<Longrightarrow> \<not> closed (errCh s)"
  by (simp add: inv_errCh_def)

text \<open>\<open>Collect\<close> itself never panics.\<close>

lemma main_no_panic:
  assumes "inv_errCh s" "step Main s = Some (e, s')"
  shows "\<not> panicked s'"
  using assms
  by (cases "mpc s")
    (auto simp: main_defs inv_errCh_def chan_close_def processErrors_closed
      split: if_splits outcome.splits)

lemma main_static:
  assumes "inv_static cs n k s" "inv_errCh s" "step Main s = Some (e, s')"
  shows "inv_static cs n k s'"
  using assms
  by (cases "mpc s")
    (auto simp: main_defs inv_static_def inv_errCh_def chan_close_def processErrors_closed
      split: if_splits outcome.splits)

lemma main_panic:
  assumes "inv_panic s" "\<not> panicked s'" "step Main s = Some (e, s')"
  shows "inv_panic s'"
proof -
  have alive: "\<not> panicked s"
    using assms(3) by (auto simp: step_def split: if_splits)
  then have "list_all (\<lambda>t. \<not> t_panicked t) (tasks s)"
    using assms(1) by (simp add: inv_panic_def)
  then show ?thesis
    using assms(2,3)
    by (cases "mpc s")
      (auto simp: main_defs inv_panic_def new_task_def split: if_splits outcome.splits)
qed

lemma main_tasks:
  assumes "inv_static cs n k s" "inv_tasks cs s" "\<not> panicked s'" "step Main s = Some (e, s')"
  shows "inv_tasks cs s'"
  using assms
  by (cases "mpc s")
    (auto simp: main_defs inv_static_def inv_tasks_def take_Suc_conv_app_nth new_task_def task_ok_def
      split: if_splits outcome.splits)

lemma length_tasks: "inv_tasks cs s \<Longrightarrow> length (tasks s) = spawned (length cs) (mpc s)"
  unfolding inv_tasks_def by (metis length_map length_take min.absorb2)

lemma main_hist_step:
  assumes "inv_static cs n k s" "inv_tasks cs s" "inv_hist tr s" "\<not> panicked s'"
    "step Main s = Some (e, s')"
  shows "inv_hist (tr @ [e]) s'"
proof -
  have len: "length (tasks s) = spawned (length cs) (mpc s)"
    and le: "spawned (length cs) (mpc s) \<le> length cs"
    using assms(2) length_tasks by (auto simp: inv_tasks_def)
  have none: "\<And>i. \<not> i < length (tasks s) \<Longrightarrow> acts_of (Task i) tr = []"
    using assms(3) by (simp add: inv_hist_def)
  show ?thesis
    using assms len le
    by (cases "mpc s")
      (auto simp: main_defs inv_static_def inv_hist_def acts_of_snoc main_hist_def started_def
        scrapes_sample_def frrUp_sample_def nth_append task_hist_def new_task_def none
        split: if_splits outcome.splits)
qed

lemma main_wg:
  assumes "inv_wg s" "\<not> panicked s'" "step Main s = Some (e, s')" "inv_tasks cs s"
  shows "inv_wg s'"
  using assms length_tasks[OF assms(4)]
  by (cases "mpc s")
    (auto simp: main_defs inv_wg_def new_task_def
      split: if_splits outcome.splits)

lemma main_errCh:
  assumes "inv_errCh s" "\<not> panicked s'" "step Main s = Some (e, s')" "inv_tasks cs s"
  shows "inv_errCh s'"
  using assms length_tasks[OF assms(4)]
  by (cases "mpc s")
    (auto simp: main_defs inv_errCh_def nsignalled_def new_task_def signalled_def make_chan_def
        chan_close_def processErrors_closed
      split: if_splits outcome.splits)

lemma main_sink:
  assumes "inv_sink tr s" "\<not> panicked s'" "step Main s = Some (e, s')"
  shows "inv_sink (tr @ [e]) s'"
  using assms
  by (cases "mpc s")
    (auto simp: main_defs inv_sink_def nsignalled_def new_task_def signalled_def sends_snoc
      split: if_splits outcome.splits)


lemma length_filter_update:
  "i < length xs \<Longrightarrow>
   length (filter P (xs[i := y])) + (if P (xs ! i) then 1 else 0)
     = length (filter P xs) + (if P y then 1 else 0)"
proof (induction xs arbitrary: i)
  case Nil
  then show ?case by simp
next
  case (Cons x xs)
  show ?case
  proof (cases i)
    case 0
    then show ?thesis by simp
  next
    case (Suc j)
    with Cons.prems have "j < length xs" by simp
    from Cons.IH[OF this] Suc show ?thesis by simp
  qed
qed

lemma filter_update_same:
  "i < length xs \<Longrightarrow> P (xs ! i) = P y \<Longrightarrow>
   length (filter P (xs[i := y])) = length (filter P xs)"
  using length_filter_update[of i xs P y] by (simp split: if_splits)

lemma filter_update_drop:
  "i < length xs \<Longrightarrow> P (xs ! i) \<Longrightarrow> \<not> P y \<Longrightarrow>
   length (filter P (xs[i := y])) = length (filter P xs) - 1"
  using length_filter_update[of i xs P y] by simp

lemma filter_update_add:
  "i < length xs \<Longrightarrow> \<not> P (xs ! i) \<Longrightarrow> P y \<Longrightarrow>
   length (filter P (xs[i := y])) = Suc (length (filter P xs))"
  using length_filter_update[of i xs P y] by simp

lemma filter_pos: "i < length xs \<Longrightarrow> P (xs ! i) \<Longrightarrow> 0 < length (filter P xs)"
  by (metis filter_empty_conv length_greater_0_conv nth_mem)

lemma list_all_update: "list_all P xs \<Longrightarrow> P y \<Longrightarrow> list_all P (xs[i := y])"
  by (induction xs arbitrary: i) (auto split: nat.splits)

lemma map_update_same: "f y = f (xs ! i) \<Longrightarrow> map f (xs[i := y]) = map f xs"
  by (induction xs arbitrary: i) (auto split: nat.splits)

lemmas task_defs = step_def runCollector_step_def task_send_def task_panic_def
  MustNewConstMetric_def set_task_def Let_def

lemma live_task:
  assumes "inv_tasks cs s" "inv_wg s" "i < length (tasks s)" "t_pc (tasks s ! i) \<noteq> T_Exit"
  shows "(\<exists>k. mpc s = M_Range k) \<or> mpc s = M_Wait"
proof -
  have "0 < wg s"
    using assms(2,3,4) filter_pos[of i "tasks s" "\<lambda>t. t_pc t \<noteq> T_Exit"]
    by (simp add: inv_wg_def)
  then have "\<not> joined (mpc s)"
    using assms(2) by (auto simp: inv_wg_def)
  moreover have "0 < spawned (length cs) (mpc s)"
    using assms(1,3) length_tasks by fastforce
  ultimately show ?thesis
    by (cases "mpc s") auto
qed

lemma live_errCh:
  assumes "inv_tasks cs s" "inv_wg s" "inv_errCh s" "i < length (tasks s)"
    "t_pc (tasks s ! i) \<noteq> T_Exit"
  shows "errCh s = \<lparr>buf = replicate (nsignalled s) 1, cap = 1024, closed = False\<rparr>
    \<and> nsignalled s \<le> 1024 \<and> 0 < wg s"
proof -
  have "0 < wg s"
    using assms(2,4,5) filter_pos[of i "tasks s" "\<lambda>t. t_pc t \<noteq> T_Exit"]
    by (simp add: inv_wg_def)
  then show ?thesis
    using live_task[OF assms(1,2,4,5)] assms(3) by (auto simp: inv_errCh_def)
qed

text \<open>
  A step in which a goroutine panics changes nothing but the two flags; any other step
  of a goroutine leaves the process alive.
\<close>

lemma task_panic_step:
  assumes "step (Task i) s = Some (e, s')" "panicked s'"
  shows "i < length (tasks s) \<and> e = (Task i, A_Panic)
    \<and> tasks s' = (tasks s)[i := (tasks s ! i)\<lparr>t_panicked := True\<rparr>]
    \<and> mpc s' = mpc s \<and> wg s' = wg s \<and> errCh s' = errCh s \<and> errCount s' = errCount s
    \<and> ch s' = ch s \<and> e_Collectors s' = e_Collectors s
    \<and> frrTotalScrapeCount s' = frrTotalScrapeCount s
    \<and> frrTotalErrorCount s' = frrTotalErrorCount s"
proof -
  have i: "i < length (tasks s)"
    using assms(1) by (auto simp: task_defs split: if_splits)
  show ?thesis
    using assms i
    by (cases "t_pc (tasks s ! i)")
      (auto simp: task_defs split: if_splits outcome.splits)
qed

lemma panicked_hist:
  "task_hist (t\<lparr>t_panicked := True\<rparr>)
     = task_hist_pc (t_collector t) (t_elapsed t) (t_pc t) @ [A_Panic]"
  by (simp add: task_hist_def)

lemma panic_inv:
  assumes "Collect_inv cs n k (tr, s)" "step (Task i) s = Some (e, s')" "panicked s'"
  shows "Collect_inv cs n k (tr @ [e], s')"
proof -
  note sh = task_panic_step[OF assms(2,3)]
  let ?t = "tasks s ! i"
  let ?t' = "?t\<lparr>t_panicked := True\<rparr>"
  have i: "i < length (tasks s)" and e: "e = (Task i, A_Panic)"
    and ts': "tasks s' = (tasks s)[i := ?t']"
    using sh by simp_all
  have st: "inv_static cs n k s" and ts: "inv_tasks cs s" and hs: "inv_hist tr s"
    and w: "inv_wg s" and ec: "inv_errCh s" and sk: "inv_sink tr s" and pn: "inv_panic s"
    using assms(1) by (simp_all add: Collect_inv_def)
  have alive: "\<not> panicked s"
    using assms(2) by (auto simp: step_def split: if_splits)
  then have np: "\<not> t_panicked ?t"
    using pn i by (simp add: inv_panic_def list_all_length)
  have c1: "inv_static cs n k s'"
    using st sh by (simp add: inv_static_def)
  have "task_ok ?t" using ts i by (simp add: inv_tasks_def list_all_length)
  then have "task_ok ?t'" by (simp add: task_ok_def)
  then have c2: "inv_tasks cs s'"
    using ts sh by (simp add: inv_tasks_def map_update_same list_all_update)
  have own: "acts_of (Task i) tr = task_hist ?t"
    using hs i by (simp add: inv_hist_def)
  have "task_hist ?t' = task_hist ?t @ [A_Panic]"
    using np by (simp add: task_hist_def)
  then have c3: "inv_hist (tr @ [e]) s'"
    using hs i e ts' sh own
    by (auto simp: inv_hist_def acts_of_snoc main_hist_def nth_list_update)
  have "length (filter (\<lambda>t. t_pc t \<noteq> T_Exit) ((tasks s)[i := ?t']))
      = length (filter (\<lambda>t. t_pc t \<noteq> T_Exit) (tasks s))"
    using i by (intro filter_update_same) simp_all
  then have c4: "inv_wg s'"
    using w sh by (auto simp: inv_wg_def)
  have ns: "length (filter signalled ((tasks s)[i := ?t'])) = length (filter signalled (tasks s))"
    using i by (intro filter_update_same) (simp_all add: signalled_def)
  then have c5: "inv_errCh s'"
    using ec sh by (simp add: inv_errCh_def nsignalled_def)
  have c6: "inv_sink (tr @ [e]) s'"
    using sk sh ns e by (simp add: inv_sink_def nsignalled_def sends_snoc)
  have "t_panicked (tasks s' ! i)" using ts' i by simp
  then have "\<not> list_all (\<lambda>t. \<not> t_panicked t) (tasks s')"
    using i ts' by (auto simp: list_all_length)
  then have c7: "inv_panic s'"
    using assms(3) by (simp add: inv_panic_def)
  show ?thesis
    using c1 c2 c3 c4 c5 c6 c7 by (simp add: Collect_inv_def)
qed

lemma task_static:
  assumes "inv_static cs n k s" "\<not> panicked s'" "step (Task i) s = Some (e, s')"
  shows "inv_static cs n k s'"
proof -
  have i: "i < length (tasks s)"
    using assms(3) by (auto simp: task_defs split: if_splits)
  show ?thesis
    using assms i
    by (cases "t_pc (tasks s ! i)")
      (auto simp: task_defs inv_static_def split: if_splits outcome.splits)
qed

lemma task_panic_flag:
  assumes "inv_panic s" "\<not> panicked s'" "step (Task i) s = Some (e, s')"
  shows "inv_panic s'"
proof -
  have i: "i < length (tasks s)" and alive: "\<not> panicked s"
    using assms(3) by (auto simp: task_defs split: if_splits)
  have all: "list_all (\<lambda>t. \<not> t_panicked t) (tasks s)"
    using assms(1) alive by (simp add: inv_panic_def)
  then have np: "\<not> t_panicked (tasks s ! i)"
    using i by (simp add: list_all_length)
  show ?thesis
    using assms(2,3) i all np
    by (cases "t_pc (tasks s ! i)")
      (auto simp: task_defs inv_panic_def intro!: list_all_update
        split: if_splits outcome.splits)
qed

lemma task_tasks:
  assumes "inv_tasks cs s" "\<not> panicked s'" "step (Task i) s = Some (e, s')"
  shows "inv_tasks cs s'"
proof -
  have i: "i < length (tasks s)"
    using assms(3) by (auto simp: task_defs split: if_splits)
  have ok: "task_ok (tasks s ! i)"
    using assms(1) i by (simp add: inv_tasks_def list_all_length)
  show ?thesis
    using assms i ok
    by (cases "t_pc (tasks s ! i)")
      (auto simp: task_defs inv_tasks_def map_update_same task_ok_def
        intro!: list_all_update split: if_splits outcome.splits)
qed

lemma task_hist_step:
  assumes "inv_tasks cs s" "inv_hist tr s" "\<not> panicked s'" "step (Task i) s = Some (e, s')"
    "inv_panic s"
  shows "inv_hist (tr @ [e]) s'"
proof -
  have i: "i < length (tasks s)" and alive: "\<not> panicked s"
    using assms(4) by (auto simp: task_defs split: if_splits)
  have ok: "task_ok (tasks s ! i)"
    using assms(1) i by (simp add: inv_tasks_def list_all_length)
  have np: "\<not> t_panicked (tasks s ! i)"
    using assms(5) alive i by (simp add: inv_panic_def list_all_length)
  have own: "acts_of (Task i) tr = task_hist (tasks s ! i)"
    using assms(2) i by (simp add: inv_hist_def)
  show ?thesis
    using assms(2,3,4) i ok own np
    by (cases "t_pc (tasks s ! i)")
      (auto simp: task_defs inv_hist_def acts_of_snoc main_hist_def task_hist_def task_ok_def
        nth_list_update produced_def collected_def verdict_def up_sample_def duration_sample_def
        take_Suc_conv_app_nth
        split: if_splits outcome.splits)
qed

lemma task_wg:
  assumes "inv_tasks cs s" "inv_wg s" "\<not> panicked s'" "step (Task i) s = Some (e, s')"
  shows "inv_wg s'"
proof -
  have i: "i < length (tasks s)" and live: "t_pc (tasks s ! i) \<noteq> T_Exit"
    using assms(4) by (auto simp: task_defs split: if_splits)
  have nj: "\<not> joined (mpc s)"
    using live_task[OF assms(1,2) i live] by auto
  show ?thesis
    using assms(2,3,4) i nj
    by (cases "t_pc (tasks s ! i)")
      (auto simp: task_defs inv_wg_def filter_update_same filter_update_drop
        split: if_splits outcome.splits)
qed

lemma task_errCh:
  assumes "inv_tasks cs s" "inv_wg s" "inv_errCh s" "\<not> panicked s'"
    "step (Task i) s = Some (e, s')"
  shows "inv_errCh s'"
proof -
  have i: "i < length (tasks s)" and live: "t_pc (tasks s ! i) \<noteq> T_Exit"
    using assms(5) by (auto simp: task_defs split: if_splits)
  have ok: "task_ok (tasks s ! i)"
    using assms(1) i by (simp add: inv_tasks_def list_all_length)
  note ch = live_errCh[OF assms(1,2,3) i live]
  from live_task[OF assms(1,2) i live] show ?thesis
    using assms(4,5) i ok ch
    by (cases "t_pc (tasks s ! i)")
      (auto simp: task_defs inv_errCh_def nsignalled_def signalled_def task_ok_def chan_send_def
        filter_update_same filter_update_add replicate_append_same
        split: if_splits outcome.splits)
qed

lemma task_sink:
  assumes "inv_tasks cs s" "inv_sink tr s" "\<not> panicked s'" "step (Task i) s = Some (e, s')"
  shows "inv_sink (tr @ [e]) s'"
proof -
  have i: "i < length (tasks s)"
    using assms(4) by (auto simp: task_defs split: if_splits)
  have ok: "task_ok (tasks s ! i)"
    using assms(1) i by (simp add: inv_tasks_def list_all_length)
  show ?thesis
    using assms(2,3,4) i ok
    by (cases "t_pc (tasks s ! i)")
      (auto simp: task_defs inv_sink_def nsignalled_def signalled_def task_ok_def sends_snoc
        filter_update_same filter_update_add
        split: if_splits outcome.splits)
qed

lemma step_inv:
  assumes "Collect_inv cs n k (tr, s)" and "step a s = Some (e, s')"
  shows "Collect_inv cs n k (tr @ [e], s')"
proof (cases a)
  case Main
  have st: "inv_static cs n k s" and ts: "inv_tasks cs s" and hs: "inv_hist tr s"
    and w: "inv_wg s" and ec: "inv_errCh s" and sk: "inv_sink tr s" and pn: "inv_panic s"
    using assms(1) by (simp_all add: Collect_inv_def)
  have stp: "step Main s = Some (e, s')" using assms(2) Main by simp
  have np: "\<not> panicked s'" by (rule main_no_panic[OF ec stp])
  show ?thesis
    using main_static[OF st ec stp] main_tasks[OF st ts np stp] main_hist_step[OF st ts hs np stp]
      main_wg[OF w np stp ts] main_errCh[OF ec np stp ts] main_sink[OF sk np stp]
      main_panic[OF pn np stp]
    by (simp add: Collect_inv_def)
next
  case (Task i)
  have st: "inv_static cs n k s" and ts: "inv_tasks cs s" and hs: "inv_hist tr s"
    and w: "inv_wg s" and ec: "inv_errCh s" and sk: "inv_sink tr s" and pn: "inv_panic s"
    using assms(1) by (simp_all add: Collect_inv_def)
  have stp: "step (Task i) s = Some (e, s')" using assms(2) Task by simp
  show ?thesis
  proof (cases "panicked s'")
    case True
    from panic_inv[OF assms(1) stp True] show ?thesis .
  next
    case np: False
    show ?thesis
      using task_static[OF st np stp] task_tasks[OF ts np stp] task_hist_step[OF ts hs np stp pn]
        task_wg[OF ts w np stp] task_errCh[OF ts w ec np stp] task_sink[OF ts sk np stp]
        task_panic_flag[OF pn np stp]
      by (simp add: Collect_inv_def)
  qed
qed

lemma exec_inv:
  "Collect_inv cs n k c \<Longrightarrow> Collect_inv cs n k (exec sched c)"
proof (induction sched arbitrary: c)
  case Nil
  then show ?case by simp
next
  case (Cons a sched)
  obtain tr s where c: "c = (tr, s)" by (cases c)
  show ?case
  proof (cases "step a s")
    case None
    then show ?thesis using Cons c by simp
  next
    case (Some r)
    obtain e s' where r: "r = (e, s')" by (cases r)
    have "Collect_inv cs n k (tr @ [e], s')"
      using step_inv Cons.prems c Some r by blast
    then show ?thesis using Cons.IH c Some r by simp
  qed
qed

lemma run_inv: "Collect_inv cs n k (run cs n k sched)"
  unfolding run_def by (rule exec_inv[OF Collect_inv_init])

lemma exec_append: "exec (as @ bs) c = exec bs (exec as c)"
proof (induction as arbitrary: c)
  case Nil
  show ?case by simp
next
  case (Cons a as)
  obtain tr s where c: "c = (tr, s)" by (cases c)
  show ?case using Cons c by (simp split: option.splits)
qed

lemma run_snoc:
  "run cs n k (sched @ [a]) =
     (case step a (snd (run cs n k sched)) of
        None \<Rightarrow> run cs n k sched
      | Some (e, s') \<Rightarrow> (fst (run cs n k sched) @ [e], s'))"
proof -
  obtain tr s where c: "run cs n k sched = (tr, s)" by (cases "run cs n k sched")
  have "run cs n k (sched @ [a]) = exec [a] (tr, s)"
    using c by (simp add: run_def exec_append)
  then show ?thesis using c by (simp split: option.splits)
qed

text \<open>Every event of a trace was produced by a step from a reachable state.\<close>

lemma run_split:
  "fst (run cs n k sched) = pre @ e # post \<Longrightarrow>
   \<exists>sched1 a sched2 s0 s1.
     sched = sched1 @ a # sched2 \<and> run cs n k sched1 = (pre, s0)
     \<and> step a s0 = Some (e, s1)"
proof (induction sched arbitrary: post rule: rev_induct)
  case Nil
  then show ?case by (simp add: run_def)
next
  case (snoc a sched)
  obtain tr s where c: "run cs n k sched = (tr, s)" by (cases "run cs n k sched")
  show ?case
  proof (cases "step a s")
    case None
    then have "fst (run cs n k sched) = pre @ e # post"
      using snoc.prems c by (simp add: run_snoc)
    from snoc.IH[OF this] show ?thesis by (metis append.assoc append_Cons)
  next
    case (Some r)
    obtain e' s' where r: "r = (e', s')" by (cases r)
    have tr': "tr @ [e'] = pre @ e # post"
      using snoc.prems c Some r by (simp add: run_snoc)
    show ?thesis
    proof (cases post rule: rev_cases)
      case Nil
      then have "tr = pre" "e' = e" using tr' by auto
      then show ?thesis using c Some r by blast
    next
      case (snoc post' x)
      then have "tr = pre @ e # post'" using tr' by auto
      then have "fst (run cs n k sched) = pre @ e # post'" using c by simp
      from snoc.IH[OF this] show ?thesis by (metis append.assoc append_Cons)
    qed
  qed
qed

section \<open>Facts about runs\<close>

lemmas run_defs = run_def Collect_init_def step_def Collect_step_def runCollector_step_def
  send_ch_def panic_def task_send_def task_panic_def MustNewConstMetric_def set_task_def
  new_task_def Let_def make_chan_def chan_send_def chan_close_def float64_incr_def
  processErrors_def chan_recv_def

lemma demo_names:
  "ValidString ''bgp''" "ValidString ''ospf''" "\<not> ValidString [CHR 0xFF]"
  by (simp_all add: ValidString_def)

lemma demo_run: "run [demo_bgp, demo_ospf] 0 0 demo_sched = (demo_trace, demo_final)"
  by (simp add: run_defs demo_sched_def demo_trace_def demo_final_def processErrors_loop.simps
      demo_bgp_def demo_ospf_def demo_names)

lemma mem_acts_of: "(a, x) \<in> set tr \<longleftrightarrow> x \<in> set (acts_of a tr)"
  by (force simp: acts_of_def)

lemma demo_fields:
  "Name demo_bgp = ''bgp''" "Name demo_ospf = ''ospf''"
  "Errors_CollectErrors demo_bgp = []" "Errors_CollectErrors demo_ospf = [''timeout'', ''parse'']"
  "PromCollector_Collect demo_bgp = [''p1'', ''p2'']" "PromCollector_Collect demo_ospf = [''o1'']"
  by (simp_all add: demo_bgp_def demo_ospf_def)

lemma run_parts:
  assumes "run cs n k sched = (tr, s)"
  shows "inv_static cs n k s" "inv_tasks cs s" "inv_hist tr s" "inv_wg s" "inv_errCh s"
    "inv_sink tr s" "inv_panic s"
  using run_inv[of cs n k sched] assms by (simp_all add: Collect_inv_def)

lemma task_collector:
  assumes "inv_tasks cs s" "i < length (tasks s)"
  shows "t_collector (tasks s ! i) = cs ! i" "i < length cs"
proof -
  have len: "length (tasks s) = spawned (length cs) (mpc s)"
    and le: "spawned (length cs) (mpc s) \<le> length cs"
    and m: "map t_collector (tasks s) = take (spawned (length cs) (mpc s)) cs"
    using assms(1) length_tasks by (auto simp: inv_tasks_def)
  show "i < length cs" using assms(2) len le by simp
  have "map t_collector (tasks s) ! i = take (spawned (length cs) (mpc s)) cs ! i"
    using m by simp
  then show "t_collector (tasks s ! i) = cs ! i"
    using assms(2) len by simp
qed

lemma task_event:
  assumes "inv_tasks cs s" "inv_hist tr s" "(Task i, x) \<in> set tr"
  shows "i < length (tasks s)" "x \<in> set (task_hist (tasks s ! i))"
proof -
  have x: "x \<in> set (acts_of (Task i) tr)" using assms(3) by (simp add: mem_acts_of)
  have h: "acts_of (Task i) tr = (if i < length (tasks s) then task_hist (tasks s ! i) else [])"
    using assms(2) by (simp add: inv_hist_def)
  show "i < length (tasks s)" using x h by (auto split: if_splits)
  then show "x \<in> set (task_hist (tasks s ! i))" using x h by simp
qed

lemma task_hist_up:
  assumes "A_Send (ConstMetric frrCollectorUp vt v ls) \<in> set (task_hist t)" "task_ok t"
  shows "vt = GaugeValue \<and> ls = [Name (t_collector t)]
    \<and> v = (if Errors_CollectErrors (t_collector t) = [] then 1 else 0)"
  using assms
  by (cases "t_pc t")
    (auto simp: task_hist_def task_ok_def produced_def collected_def verdict_def up_sample_def
      duration_sample_def split: if_splits dest: in_set_takeD)

lemma task_ok_nth: "inv_tasks cs s \<Longrightarrow> i < length (tasks s) \<Longrightarrow> task_ok (tasks s ! i)"
  by (simp add: inv_tasks_def list_all_length)

text \<open>After \<open>wg.Wait()\<close> has returned, every goroutine has returned.\<close>

lemma joined_tasks:
  assumes "inv_tasks cs s" "inv_wg s" "joined (mpc s)"
  shows "length (tasks s) = length cs" "\<forall>t \<in> set (tasks s). t_pc t = T_Exit"
    "nsignalled s = length (filter failed cs)"
proof -
  have len: "length (tasks s) = spawned (length cs) (mpc s)"
    using assms(1) by (rule length_tasks)
  show l: "length (tasks s) = length cs"
    using len assms(3) by (cases "mpc s") auto
  have "length (filter (\<lambda>t. t_pc t \<noteq> T_Exit) (tasks s)) = 0"
    using assms(2,3) by (auto simp: inv_wg_def)
  then show ex: "\<forall>t \<in> set (tasks s). t_pc t = T_Exit"
    by (simp add: filter_empty_conv)
  have "filter signalled (tasks s) = filter (\<lambda>t. failed (t_collector t)) (tasks s)"
    using ex by (intro filter_cong) (auto simp: signalled_def failed_def)
  then have "nsignalled s = length (filter failed (map t_collector (tasks s)))"
    by (simp add: nsignalled_def filter_map o_def)
  also have "map t_collector (tasks s) = cs"
    using assms(1) l len by (simp add: inv_tasks_def)
  finally show "nsignalled s = length (filter failed cs)" .
qed

lemma task_hist_no_frrUp:
  "A_Send (ConstMetric d vt v ls) \<in> set (task_hist t) \<Longrightarrow>
    d = frrCollectorUp \<or> d = frrScrapeDuration"
  by (cases "t_pc t")
    (auto simp: task_hist_def produced_def collected_def verdict_def up_sample_def
      duration_sample_def split: if_splits dest: in_set_takeD)

lemma main_hist_frrUp:
  assumes "A_Send (ConstMetric frrUp vt v ls) \<in> set (main_hist s)"
  shows "mpc s = M_Return \<and> vt = GaugeValue \<and> ls = []
    \<and> v = (if errCount s < int (length (e_Collectors s)) then 1 else 0)"
  using assms
  by (cases "mpc s")
    (auto simp: main_hist_def started_def scrapes_sample_def frrUp_sample_def split: if_splits)

lemma returned_errCount:
  assumes "run cs n k sched = (tr, s)" "mpc s = M_Return \<or> mpc s = M_FrrUp"
  shows "errCount s = int (length (filter failed cs))"
proof -
  note p = run_parts[OF assms(1)]
  have j: "joined (mpc s)" using assms(2) by auto
  have "errCount s = int (nsignalled s)"
    using p(5) assms(2) by (auto simp: inv_errCh_def)
  then show ?thesis using joined_tasks(3)[OF p(2) p(4) j] by simp
qed

lemma step_actor: "step a s = Some ((b, x), s') \<Longrightarrow> b = a"
  by (auto simp: step_def split: if_splits)

lemma returned_stuck:
  assumes "inv_tasks cs s" "inv_wg s" "mpc s = M_Return"
  shows "step a s = None"
proof (cases a)
  case Main
  then show ?thesis using assms(3) by (simp add: step_def Collect_step_def)
next
  case (Task i)
  have "joined (mpc s)" using assms(3) by simp
  from joined_tasks(2)[OF assms(1,2) this]
  have "i < length (tasks s) \<Longrightarrow> t_pc (tasks s ! i) = T_Exit" by simp
  then show ?thesis using Task by (auto simp: step_def runCollector_step_def Let_def)
qed

lemma exec_Cons: "exec (a # as) c = exec as (exec [a] c)"
  by (cases c) (simp split: option.splits)

lemma exec_stuck: "(\<And>a. step a s = None) \<Longrightarrow> exec sched (tr, s) = (tr, s)"
  by (induction sched) simp_all

lemma main_sends_frrUp:
  assumes "step Main s = Some ((Main, A_Send (ConstMetric frrUp vt v ls)), s')"
  shows "mpc s = M_FrrUp \<and> mpc s' = M_Return"
  using assms
  by (cases "mpc s")
    (auto simp: step_def Collect_step_def send_ch_def panic_def MustNewConstMetric_def
      split: if_splits outcome.splits)

lemma task_sends:
  assumes "step (Task i) s = Some ((Task i, A_Send m), s')"
  shows "desc_of m \<noteq> Some frrUp \<and> desc_of m \<noteq> Some frrScrapesTotal
    \<and> desc_of m \<noteq> Some frrScrapeErrTotal"
  using assms
  by (cases "t_pc (tasks s ! i)")
    (auto simp: task_defs chan_send_def split: if_splits outcome.splits)

text \<open>Nothing happens after \<open>Collect\<close> has written the \<open>frr_up\<close> sample.\<close>

lemma frrUp_is_last:
  assumes "fst (run cs n k sched) = pre @ (a, A_Send (ConstMetric frrUp vt v ls)) # post"
  shows "post = [] \<and> a = Main"
proof -
  let ?e = "(a, A_Send (ConstMetric frrUp vt v ls))"
  from run_split[OF assms] obtain sched1 b sched2 s0 s1 where
    sched: "sched = sched1 @ b # sched2" and r1: "run cs n k sched1 = (pre, s0)"
    and st: "step b s0 = Some (?e, s1)" by blast
  have b: "b = a" using step_actor[OF st] by simp
  have a: "a = Main"
  proof (cases a)
    case Main
    then show ?thesis .
  next
    case (Task i)
    then show ?thesis using task_sends[of i s0 "ConstMetric frrUp vt v ls" s1] st b by simp
  qed
  have ret: "mpc s1 = M_Return" using main_sends_frrUp st a b by blast
  have inv1: "Collect_inv cs n k (pre @ [?e], s1)"
    using step_inv[OF _ st] run_inv[of cs n k sched1] r1 by simp
  then have "inv_tasks cs s1" "inv_wg s1" by (simp_all add: Collect_inv_def)
  then have stuck: "\<And>c. step c s1 = None"
    using returned_stuck ret by blast
  have "run cs n k sched = exec sched2 (exec [b] (run cs n k sched1))"
    using sched exec_Cons[of b sched2] by (simp add: run_def exec_append)
  also have "\<dots> = exec sched2 (pre @ [?e], s1)" using r1 st by simp
  also have "\<dots> = (pre @ [?e], s1)" using exec_stuck[OF stuck] by simp
  finally have "fst (run cs n k sched) = pre @ [?e]" by simp
  then show ?thesis using assms a by simp
qed

lemma processErrors_loop_any:
  "closed q \<Longrightarrow>
   processErrors_loop q m = Proceeds (m + int (length (buf q)), q\<lparr>buf := []\<rparr>)"
proof (induction "buf q" arbitrary: q m)
  case Nil
  then show ?case by (subst processErrors_loop.simps) (simp add: chan_recv_def)
next
  case (Cons v rest)
  have b: "buf q = v # rest" using Cons.hyps(2) by simp
  have "processErrors_loop (q\<lparr>buf := rest\<rparr>) (m + 1)
      = Proceeds (m + 1 + int (length rest), q\<lparr>buf := rest\<rparr>\<lparr>buf := []\<rparr>)"
    using Cons.hyps(1)[of "q\<lparr>buf := rest\<rparr>" "m + 1"] Cons.prems by simp
  then show ?case
    by (subst processErrors_loop.simps) (simp add: chan_recv_def b)
qed

lemma main_hist_ProcessErrors:
  assumes "A_ProcessErrors c \<in> set (main_hist s)"
  shows "(mpc s = M_FrrUp \<or> mpc s = M_Return) \<and> c = errCount s"
  using assms
  by (cases "mpc s")
    (auto simp: main_hist_def started_def scrapes_sample_def frrUp_sample_def split: if_splits)

lemma main_hist_sends:
  assumes "A_Send (ConstMetric d vt v ls) \<in> set (main_hist s)"
  shows "d = frrScrapesTotal \<or> d = frrUp"
  using assms
  by (cases "mpc s")
    (auto simp: main_hist_def started_def scrapes_sample_def frrUp_sample_def split: if_splits)

lemma sends_mem: "m \<in> set (sends tr) \<longleftrightarrow> (\<exists>a. (a, A_Send m) \<in> set tr)"
proof (induction tr)
  case Nil
  show ?case by (simp add: sends_def)
next
  case (Cons e tr)
  obtain a x where e: "e = (a, x)" by (cases e)
  have "sends (e # tr) = sent x @ sends tr" using e by (simp add: sends_def)
  then show ?case using Cons e by (cases x) auto
qed

lemma filter_exit_hist:
  assumes "t_pc t = T_Exit"
  shows "filter (\<lambda>x. sample_of x = Some frrCollectorUp) (task_hist t)
      = [up_sample (t_collector t) (if failed (t_collector t) then 0 else 1)]"
    and "filter (\<lambda>x. sample_of x = Some frrScrapeDuration) (task_hist t)
      = [duration_sample (t_collector t) (t_elapsed t)]"
  using assms
  by (simp_all add: task_hist_def collected_def produced_def verdict_def up_sample_def
      duration_sample_def failed_def filter_map o_def)

lemma count_by_actor:
  assumes "\<forall>i. N \<le> i \<longrightarrow> acts_of (Task i) tr = []"
  shows "length (filter (\<lambda>e. Q (snd e)) tr)
    = length (filter Q (acts_of Main tr)) + (\<Sum>j<N. length (filter Q (acts_of (Task j) tr)))"
  using assms
proof (induction tr)
  case Nil
  show ?case by (simp add: acts_of_def)
next
  case (Cons e tr)
  obtain a x where e: "e = (a, x)" by (cases e)
  have rest: "\<forall>i. N \<le> i \<longrightarrow> acts_of (Task i) tr = []"
    using Cons.prems by (auto simp: acts_of_def e split: if_splits)
  note IH = Cons.IH[OF rest]
  show ?case
  proof (cases a)
    case Main
    then show ?thesis using IH e by (simp add: acts_of_def)
  next
    case (Task i)
    have i: "i < N"
      using Cons.prems e Task by (auto simp: acts_of_def dest!: spec[of _ i])
    have "(\<Sum>j<N. length (filter Q (acts_of (Task j) (e # tr))))
        = (\<Sum>j<N. length (filter Q (acts_of (Task j) tr)) + (if j = i \<and> Q x then 1 else 0))"
      using e Task by (intro sum.cong) (auto simp: acts_of_def)
    also have "\<dots> = (\<Sum>j<N. length (filter Q (acts_of (Task j) tr))) + (if Q x then 1 else 0)"
      using i by (simp add: sum.distrib)
    finally show ?thesis using IH e Task by (simp add: acts_of_def)
  qed
qed

lemma sends_filter:
  "length (filter (\<lambda>m. desc_of m = Some d) (sends tr))
    = length (filter (\<lambda>e. sample_of (snd e) = Some d) tr)"
proof (induction tr)
  case Nil
  show ?case by (simp add: sends_def)
next
  case (Cons e tr)
  obtain a x where e: "e = (a, x)" by (cases e)
  have "sends (e # tr) = sent x @ sends tr" using e by (simp add: sends_def)
  then show ?case using Cons e by (cases x) auto
qed

lemma main_hist_no_status:
  "filter (\<lambda>x. sample_of x = Some frrCollectorUp) (main_hist s) = []"
  "filter (\<lambda>x. sample_of x = Some frrScrapeDuration) (main_hist s) = []"
  by (cases "mpc s"; simp add: main_hist_def started_def scrapes_sample_def frrUp_sample_def
      filter_map o_def)+

lemma task_step_status:
  assumes "step (Task i) s = Some ((Task i, x), s')" "is_status x"
  shows "i < length (tasks s)
    \<and> (t_pc (tasks s ! i) = T_Up0 \<and> x = up_sample (t_collector (tasks s ! i)) 0
       \<or> t_pc (tasks s ! i) = T_Up1 \<and> x = up_sample (t_collector (tasks s ! i)) 1
       \<or> t_pc (tasks s ! i) = T_Duration \<and> sample_of x = Some frrScrapeDuration)"
  using assms
  by (cases "t_pc (tasks s ! i)")
    (auto simp: task_defs chan_send_def up_sample_def split: if_splits outcome.splits)

lemma task_step_domain:
  assumes "step (Task i) s = Some ((Task i, x), s')" "is_domain x"
  shows "i < length (tasks s) \<and> (\<exists>j. t_pc (tasks s ! i) = T_Collect j)"
  using assms
  by (cases "t_pc (tasks s ! i)")
    (auto simp: task_defs chan_send_def split: if_splits outcome.splits)

lemma produced_no_status: "y \<in> set (produced c j) \<Longrightarrow> \<not> is_status y"
  by (auto simp: produced_def)

lemma main_step_not_status: "step Main s = Some ((Main, x), s') \<Longrightarrow> \<not> is_status x"
  by (cases "mpc s")
    (auto simp: step_def Collect_step_def send_ch_def panic_def MustNewConstMetric_def
      split: if_splits outcome.splits)

lemma main_sends_scrapes:
  assumes "step Main s = Some ((Main, A_Send m), s')" "desc_of m = Some frrScrapesTotal"
  shows "mpc s = M_Scrapes"
  using assms
  by (cases "mpc s")
    (auto simp: step_def Collect_step_def send_ch_def panic_def MustNewConstMetric_def
      split: if_splits outcome.splits)

lemma only_main:
  "(\<And>j. acts_of (Task j) tr = []) \<Longrightarrow> tr = map (Pair Main) (acts_of Main tr)"
proof (induction tr)
  case Nil
  show ?case by (simp add: acts_of_def)
next
  case (Cons e tr)
  obtain a x where e: "e = (a, x)" by (cases e)
  have a: "a = Main"
  proof (cases a)
    case (Task j)
    then show ?thesis using Cons.prems[of j] e by (simp add: acts_of_def)
  qed simp
  have "\<And>j. acts_of (Task j) tr = []"
    using Cons.prems e a by (simp add: acts_of_def)
  from Cons.IH[OF this] show ?case using e a by (simp add: acts_of_def)
qed

lemma exit_hist_mem:
  assumes "t_pc t = T_Exit"
  shows "A_WgDone \<in> set (task_hist t)"
    "up_sample (t_collector t) (if failed (t_collector t) then 0 else 1) \<in> set (task_hist t)"
    "duration_sample (t_collector t) (t_elapsed t) \<in> set (task_hist t)"
  using assms by (simp_all add: task_hist_def verdict_def failed_def)

lemma filter_less_filter:
  assumes "\<And>x. x \<in> set xs \<Longrightarrow> P x \<Longrightarrow> Q x" "i < length xs" "Q (xs ! i)" "\<not> P (xs ! i)"
  shows "length (filter P xs) < length (filter Q xs)"
proof -
  have "filter P xs = filter P (filter Q xs)"
    using assms(1) by (auto intro: filter_cong)
  moreover have "xs ! i \<in> set (filter Q xs)" using assms(2,3) by simp
  ultimately show ?thesis using assms(4) by (metis length_filter_less)
qed

lemma filter_take_le: "length (filter P (take m xs)) \<le> length (filter P xs)"
proof -
  have "length (filter P xs) = length (filter P (take m xs)) + length (filter P (drop m xs))"
    by (metis append_take_drop_id filter_append length_append)
  then show ?thesis by simp
qed

text \<open>A goroutine at its send to \<open>errCh\<close> can move when at most 1024 collectors failed.\<close>

lemma errSend_enabled:
  assumes "inv_tasks cs s" "inv_wg s" "inv_errCh s"
    "length (filter failed cs) \<le> 1024" "i < length (tasks s)" "t_pc (tasks s ! i) = T_ErrSend"
  shows "\<exists>q. chan_send (errCh s) 1 = Proceeds q"
    and "\<not> panicked s \<Longrightarrow> \<exists>s'. step (Task i) s = Some ((Task i, A_ErrSend), s')"
proof -
  have live: "t_pc (tasks s ! i) \<noteq> T_Exit" using assms(6) by simp
  note q = live_errCh[OF assms(1,2,3,5) live]
  have ok: "\<And>t. t \<in> set (tasks s) \<Longrightarrow> task_ok t"
    using assms(1) by (simp add: inv_tasks_def list_all_iff)
  have sf: "signalled t \<Longrightarrow> failed (t_collector t)" if "t \<in> set (tasks s)" for t
    using ok[OF that] by (cases "t_pc t") (auto simp: signalled_def task_ok_def failed_def)
  have fi: "failed (t_collector (tasks s ! i))"
    using ok[of "tasks s ! i"] assms(5,6) by (auto simp: task_ok_def failed_def)
  have ns: "\<not> signalled (tasks s ! i)" using assms(6) by (simp add: signalled_def)
  have "nsignalled s < length (filter (\<lambda>t. failed (t_collector t)) (tasks s))"
    unfolding nsignalled_def using sf assms(5) fi ns by (rule filter_less_filter)
  also have "\<dots> = length (filter failed (map t_collector (tasks s)))"
    by (simp add: filter_map o_def)
  also have "\<dots> \<le> length (filter failed cs)"
    using assms(1) by (simp add: inv_tasks_def filter_take_le)
  finally have lt: "nsignalled s < 1024" using assms(4) by simp
  then show "\<exists>q. chan_send (errCh s) 1 = Proceeds q"
    using q by (simp add: chan_send_def)
  show "\<exists>s'. step (Task i) s = Some ((Task i, A_ErrSend), s')" if "\<not> panicked s"
    using q lt that assms(5,6) by (simp add: task_defs chan_send_def)
qed

lemma count_event:
  "length (filter (\<lambda>e. e = (a, x)) tr) = length (filter (\<lambda>y. y = x) (acts_of a tr))"
  by (induction tr) (auto simp: acts_of_def)

lemma task_hist_one_ErrSend: "length (filter (\<lambda>y. y = A_ErrSend) (task_hist t)) \<le> 1"
  by (cases "t_pc t")
    (simp_all add: task_hist_def collected_def produced_def verdict_def up_sample_def
      duration_sample_def filter_map o_def)

lemma main_step_Close:
  "step Main s = Some ((Main, A_Close), s') \<Longrightarrow> mpc s = M_Close"
  by (cases "mpc s")
    (auto simp: step_def Collect_step_def send_ch_def panic_def MustNewConstMetric_def
      split: if_splits outcome.splits)

text \<open>With more than 1024 failing collectors \<open>Collect\<close> never gets past \<open>wg.Wait()\<close>.\<close>

lemma never_returns:
  assumes "1024 < length (filter failed cs)"
  shows "\<not> joined (mpc (snd (run cs n k sched)))"
proof
  obtain tr s where r: "run cs n k sched = (tr, s)" by (cases "run cs n k sched")
  note p = run_parts[OF r]
  assume "joined (mpc (snd (run cs n k sched)))"
  then have j: "joined (mpc s)" using r by simp
  have "acts_of Main tr = main_hist s" using p(3) by (simp add: inv_hist_def)
  then have "A_Wait \<in> set (acts_of Main tr)"
    using j by (cases "mpc s") (simp_all add: main_hist_def)
  then have "(Main, A_Wait) \<in> set tr" by (simp add: mem_acts_of)
  then obtain pre post where "fst (run cs n k sched) = pre @ (Main, A_Wait) # post"
    using r by (metis fst_conv split_list)
  from run_split[OF this] obtain sched1 b s0 s1 where
    r1: "run cs n k sched1 = (pre, s0)" and st: "step b s0 = Some ((Main, A_Wait), s1)" by blast
  have b: "b = Main" using step_actor[OF st] by simp
  have inv1: "Collect_inv cs n k (pre @ [(Main, A_Wait)], s1)"
    using step_inv[OF _ st] run_inv[of cs n k sched1] r1 by simp
  have pc1: "mpc s1 = M_Close"
    using st b by (cases "mpc s0")
      (auto simp: step_def Collect_step_def send_ch_def panic_def MustNewConstMetric_def
        split: if_splits outcome.splits)
  have "nsignalled s1 \<le> 1024"
    using inv1 pc1 by (simp add: Collect_inv_def inv_errCh_def)
  moreover have "nsignalled s1 = length (filter failed cs)"
    using joined_tasks(3)[of cs s1] inv1 pc1 by (simp add: Collect_inv_def)
  ultimately show False using assms by simp
qed

lemma step_mpc_Incr:
  assumes "step a s = Some (e, s')" "mpc s' = M_Incr"
  shows "mpc s = M_Incr \<and> a \<noteq> Main"
proof (cases a)
  case Main
  then show ?thesis
    using assms
    by (cases "mpc s")
      (auto simp: step_def Collect_step_def send_ch_def panic_def MustNewConstMetric_def
        split: if_splits outcome.splits)
next
  case (Task i)
  then show ?thesis
    using assms
    by (cases "t_pc (tasks s ! i)")
      (auto simp: task_defs split: if_splits outcome.splits)
qed

lemma Incr_enabled: "\<not> panicked s \<Longrightarrow> mpc s = M_Incr \<Longrightarrow> step Main s \<noteq> None"
  by (simp add: step_def Collect_step_def)

text \<open>Before \<open>Collect\<close> has taken its first step there is no goroutine and no panic.\<close>

lemma Incr_alive:
  assumes "Collect_inv cs n k (tr, s)" "mpc s = M_Incr"
  shows "\<not> panicked s"
proof -
  have "length (tasks s) = 0"
    using length_tasks[of cs s] assms by (simp add: Collect_inv_def)
  then show ?thesis using assms(1) by (simp add: Collect_inv_def inv_panic_def)
qed

lemma exec_started:
  assumes "Collect_inv cs n k (tr, s)" "mpc s \<noteq> M_Incr \<or> Main \<in> set sched"
  shows "mpc (snd (exec sched (tr, s))) \<noteq> M_Incr"
  using assms
proof (induction sched arbitrary: tr s)
  case Nil
  then show ?case by simp
next
  case (Cons a sched)
  show ?case
  proof (cases "step a s")
    case None
    have "mpc s \<noteq> M_Incr \<or> a \<noteq> Main"
    proof (rule ccontr)
      assume "\<not> (mpc s \<noteq> M_Incr \<or> a \<noteq> Main)"
      then have m: "mpc s = M_Incr" and a: "a = Main" by auto
      from Incr_enabled[OF Incr_alive[OF Cons.prems(1) m] m] show False
        using None a by simp
    qed
    then have "mpc s \<noteq> M_Incr \<or> Main \<in> set sched" using Cons.prems(2) by auto
    from Cons.IH[OF Cons.prems(1) this] show ?thesis using None by simp
  next
    case (Some r)
    obtain e s' where r: "r = (e, s')" by (cases r)
    have inv': "Collect_inv cs n k (tr @ [e], s')"
      using step_inv[OF Cons.prems(1)] Some r by simp
    have "mpc s' \<noteq> M_Incr \<or> Main \<in> set sched"
      using step_mpc_Incr[of a s e s'] Some r Cons.prems(2) by auto
    from Cons.IH[OF inv' this] show ?thesis using Some r by simp
  qed
qed

lemma run_started: "Main \<in> set sched \<Longrightarrow> mpc (snd (run cs n k sched)) \<noteq> M_Incr"
  unfolding run_def using exec_started[OF Collect_inv_init] by blast

lemma run_count:
  "frrTotalScrapeCount (snd (run cs n k sched))
     = (if mpc (snd (run cs n k sched)) = M_Incr then n else float64_incr n)"
  using run_inv[of cs n k sched] by (simp add: Collect_inv_def inv_static_def)

lemma main_hist_scrapes:
  assumes "A_Send (ConstMetric frrScrapesTotal vt v ls) \<in> set (main_hist s)"
  shows "v = frrTotalScrapeCount s \<and> mpc s \<noteq> M_Incr \<and> vt = CounterValue \<and> ls = []"
  using assms
  by (cases "mpc s")
    (auto simp: main_hist_def started_def scrapes_sample_def frrUp_sample_def split: if_splits)

lemma first_event:
  assumes "fst (run cs n k sched) = e # post"
  shows "e = (Main, A_Incr)"
proof -
  have "fst (run cs n k sched) = [] @ e # post" using assms by simp
  from run_split[OF this] obtain sched1 b s0 s1 where
    r1: "run cs n k sched1 = ([], s0)" and st: "step b s0 = Some (e, s1)" by blast
  note p = run_parts[OF r1]
  have "main_hist s0 = []" using p(3) by (simp add: inv_hist_def acts_of_def)
  then have pc: "mpc s0 = M_Incr"
    by (cases "mpc s0") (simp_all add: main_hist_def started_def)
  then have "length (tasks s0) = 0" using length_tasks[OF p(2)] by simp
  then have "b = Main"
    using st by (cases b) (auto simp: step_def runCollector_step_def split: if_splits)
  then show ?thesis using st pc by (auto simp: step_def Collect_step_def split: if_splits)
qed

lemma float64_incr_le: "n \<le> float64_incr n"
  by (simp add: float64_incr_def)

lemma float64_incr_exact: "n < 2 ^ 53 \<Longrightarrow> float64_incr n = n + 1"
  by (simp add: float64_incr_def)

lemma float64_incr_top: "float64_incr (2 ^ 53) = 2 ^ 53"
  by (simp add: float64_incr_def)

lemma float64_incr_iter:
  "n \<le> 2 ^ 53 \<Longrightarrow> (float64_incr ^^ m) n = min (n + m) (2 ^ 53)"
proof (induction m)
  case 0
  then show ?case by simp
next
  case (Suc m)
  have "(float64_incr ^^ Suc m) n = float64_incr ((float64_incr ^^ m) n)" by simp
  also have "\<dots> = float64_incr (min (n + m) (2 ^ 53))"
    using Suc by simp
  also have "\<dots> = min (n + Suc m) (2 ^ 53)"
  proof (cases "n + m < 2 ^ 53")
    case True
    then show ?thesis by (simp add: float64_incr_exact min_def)
  next
    case False
    then have "min (n + m) (2 ^ 53) = (2 ^ 53 :: nat)" by simp
    then show ?thesis using False by (simp add: float64_incr_def min_def)
  qed
  finally show ?case .
qed

lemma Collect_calls_count:
  assumes "\<forall>call \<in> set calls. Main \<in> set (snd call)"
  shows "fst (Collect_calls calls g) = (float64_incr ^^ length calls) (fst g)"
  using assms
proof (induction calls arbitrary: g)
  case Nil
  show ?case by simp
next
  case (Cons call calls)
  have m: "Main \<in> set (snd call)" using Cons.prems by simp
  have "frrTotalScrapeCount (snd (run (fst call) (fst g) (snd g) (snd call))) = float64_incr (fst g)"
    using run_count[of "fst call" "fst g" "snd g" "snd call"] run_started[OF m] by simp
  then show ?case using Cons by (simp add: funpow_swap1)
qed

lemma sum_list_update_less:
  fixes f :: "'a \<Rightarrow> nat"
  assumes "i < length xs" "Suc (f y) = f (xs ! i)"
  shows "Suc (sum_list (map f (xs[i := y]))) = sum_list (map f xs)"
  using assms
proof (induction xs arbitrary: i)
  case Nil
  then show ?case by simp
next
  case (Cons x xs)
  show ?case
  proof (cases i)
    case 0
    then show ?thesis using Cons.prems by simp
  next
    case (Suc j)
    then have "j < length xs" "Suc (f y) = f (xs ! j)" using Cons.prems by simp_all
    from Cons.IH[OF this] show ?thesis using Suc by simp
  qed
qed

lemma task_step_shape:
  assumes "step (Task i) s = Some (e, s')" "\<not> panicked s'"
  shows "i < length (tasks s) \<and> tasks s' = (tasks s)[i := tasks s' ! i] \<and> mpc s' = mpc s
    \<and> e_Collectors s' = e_Collectors s
    \<and> Suc (task_rest (tasks s' ! i)) = task_rest (tasks s ! i)"
proof -
  have i: "i < length (tasks s)"
    using assms(1) by (auto simp: task_defs split: if_splits)
  show ?thesis
    using assms i
    by (cases "t_pc (tasks s ! i)")
      (auto simp: task_defs chan_send_def task_rest_def verdict_rest_def
        split: if_splits outcome.splits)
qed

lemma task_step_work:
  assumes "step (Task i) s = Some (e, s')" "\<not> panicked s'"
  shows "Suc (work s') = work s"
proof -
  note sh = task_step_shape[OF assms]
  have "Suc (sum_list (map task_rest ((tasks s)[i := tasks s' ! i])))
      = sum_list (map task_rest (tasks s))"
    using sh by (intro sum_list_update_less) simp_all
  then have "Suc (sum_list (map task_rest (tasks s'))) = sum_list (map task_rest (tasks s))"
    using sh by simp
  then show ?thesis using sh by (simp add: work_def)
qed

lemma unstarted_drop:
  "j < length cs \<Longrightarrow>
   unstarted_rest (drop j cs)
     = Suc (task_rest (new_task (cs ! j)) + unstarted_rest (drop (Suc j) cs))"
proof -
  assume "j < length cs"
  then have "drop j cs = cs ! j # drop (Suc j) cs" by (simp add: Cons_nth_drop_Suc)
  then show ?thesis by (simp add: unstarted_rest_def)
qed

lemma unstarted_done: "\<not> j < length cs \<Longrightarrow> unstarted_rest (drop j cs) = 0"
  by (simp add: unstarted_rest_def)

lemma main_step_work:
  assumes "step Main s = Some (e, s')" "\<not> panicked s'"
  shows "Suc (work s') = work s"
proof (cases "mpc s")
  case (M_Range j)
  show ?thesis
  proof (cases "j < length (e_Collectors s)")
    case True
    then show ?thesis
      using assms M_Range unstarted_drop[OF True]
      by (auto simp: main_defs work_def split: if_splits)
  next
    case False
    then show ?thesis
      using assms M_Range unstarted_done[OF False]
      by (auto simp: main_defs work_def split: if_splits)
  qed
qed (use assms in \<open>auto simp: main_defs work_def unstarted_rest_def split: if_splits outcome.splits\<close>)

lemma step_work:
  assumes "step a s = Some (e, s')" "\<not> panicked s'"
  shows "Suc (work s') = work s"
  using assms task_step_work main_step_work by (cases a) auto

text \<open>
  When every collector behaves, no step of a run panics: the names are valid UTF-8,
  \<open>errCh\<close> is open while a goroutine runs, and the wait group counts every goroutine
  that has not returned.
\<close>

lemma step_alive:
  assumes "Collect_inv cs n k (tr, s)" "\<forall>c \<in> set cs. behaves c" "step a s = Some (e, s')"
  shows "\<not> panicked s'"
proof (cases a)
  case Main
  then show ?thesis
    using main_no_panic[of s e s'] assms(1,3) by (simp add: Collect_inv_def)
next
  case (Task i)
  have ts: "inv_tasks cs s" and w: "inv_wg s" and ec: "inv_errCh s"
    using assms(1) by (simp_all add: Collect_inv_def)
  have stp: "step (Task i) s = Some (e, s')" using assms(3) Task by simp
  have i: "i < length (tasks s)" and live: "t_pc (tasks s ! i) \<noteq> T_Exit"
    and alive: "\<not> panicked s"
    using stp by (auto simp: task_defs split: if_splits)
  note q = live_errCh[OF ts w ec i live]
  have "behaves (t_collector (tasks s ! i))"
    using task_collector[OF ts i] assms(2) by simp
  then show ?thesis
    using stp i alive q
    by (cases "t_pc (tasks s ! i)")
      (auto simp: task_defs behaves_def chan_send_def split: if_splits outcome.splits)
qed

lemma exec_alive:
  assumes "Collect_inv cs n k c" "\<forall>c \<in> set cs. behaves c" "\<not> panicked (snd c)"
  shows "\<not> panicked (snd (exec sched c))"
  using assms(1,3)
proof (induction sched arbitrary: c)
  case Nil
  then show ?case by simp
next
  case (Cons a sched)
  obtain tr s where c: "c = (tr, s)" by (cases c)
  show ?case
  proof (cases "step a s")
    case None
    then show ?thesis using Cons c by simp
  next
    case (Some r)
    obtain e s' where r: "r = (e, s')" by (cases r)
    have inv: "Collect_inv cs n k (tr, s)" using Cons.prems(1) c by simp
    have st: "step a s = Some (e, s')" using Some r by simp
    have "Collect_inv cs n k (tr @ [e], s')" by (rule step_inv[OF inv st])
    moreover have "\<not> panicked s'" by (rule step_alive[OF inv assms(2) st])
    ultimately show ?thesis using Cons.IH[of "(tr @ [e], s')"] c st by simp
  qed
qed

lemma run_alive:
  assumes "\<forall>c \<in> set cs. behaves c"
  shows "\<not> panicked (snd (run cs n k sched))"
  unfolding run_def
  by (rule exec_alive[OF Collect_inv_init assms]) (simp add: Collect_init_def)

lemma task_can_move:
  assumes "\<not> panicked s" "i < length (tasks s)" "t_pc (tasks s ! i) \<noteq> T_Exit"
    "t_pc (tasks s ! i) \<noteq> T_ErrSend" "behaves (t_collector (tasks s ! i))"
  shows "\<exists>e s'. step (Task i) s = Some (e, s')"
  using assms
  by (cases "t_pc (tasks s ! i)") (auto simp: task_defs behaves_def)

lemma main_can_move:
  assumes "\<not> panicked s" "mpc s \<noteq> M_Return" "mpc s \<noteq> M_Wait \<or> wg s = 0"
    "mpc s = M_ProcessErrors \<longrightarrow> (\<exists>r. processErrors (errCh s) = Proceeds r)"
  shows "\<exists>e s'. step Main s = Some (e, s')"
  using assms
  by (cases "mpc s") (auto simp: main_defs chan_close_def)

text \<open>
  No deadlock: when every collector behaves and at most 1024 of them fail, some actor can
  move as long as \<open>Collect\<close> has not returned.
\<close>

lemma can_move:
  assumes "Collect_inv cs n k (tr, s)" "\<not> panicked s" "\<forall>c \<in> set cs. behaves c"
    "length (filter failed cs) \<le> 1024" "mpc s \<noteq> M_Return"
  shows "\<exists>a e s'. step a s = Some (e, s')"
proof -
  have ts: "inv_tasks cs s" and w: "inv_wg s" and ec: "inv_errCh s"
    using assms(1) by (simp_all add: Collect_inv_def)
  note np = assms(2)
  have pe: "mpc s = M_ProcessErrors \<longrightarrow> (\<exists>r. processErrors (errCh s) = Proceeds r)"
    using ec by (auto simp: inv_errCh_def processErrors_closed)
  show ?thesis
  proof (cases "mpc s = M_Wait \<and> wg s \<noteq> 0")
    case False
    then have "mpc s \<noteq> M_Wait \<or> wg s = 0" by blast
    from main_can_move[OF np assms(5) this pe] show ?thesis by blast
  next
    case True
    then have "filter (\<lambda>t. t_pc t \<noteq> T_Exit) (tasks s) \<noteq> []"
      using w by (auto simp: inv_wg_def)
    then obtain t where "t \<in> set (tasks s)" "t_pc t \<noteq> T_Exit"
      by (auto simp: filter_empty_conv)
    then obtain i where i: "i < length (tasks s)" and live: "t_pc (tasks s ! i) \<noteq> T_Exit"
      by (auto simp: in_set_conv_nth)
    have bh: "behaves (t_collector (tasks s ! i))"
      using task_collector[OF ts i] assms(3) by simp
    show ?thesis
    proof (cases "t_pc (tasks s ! i) = T_ErrSend")
      case True
      from errSend_enabled(2)[OF ts w ec assms(4) i True np] show ?thesis by blast
    next
      case False
      from task_can_move[OF np i live False bh] show ?thesis by blast
    qed
  qed
qed

text \<open>
  Every run in which every collector behaves and at most 1024 of them fail can be
  continued until \<open>Collect\<close> has returned; such a run has no more steps than \<open>work\<close> of its
  first state.
\<close>

lemma exec_returns:
  assumes "Collect_inv cs n k (tr, s)" "\<not> panicked s" "\<forall>c \<in> set cs. behaves c"
    "length (filter failed cs) \<le> 1024"
  shows "\<exists>sched. mpc (snd (exec sched (tr, s))) = M_Return"
  using assms(1,2)
proof (induction "work s" arbitrary: tr s rule: less_induct)
  case less
  show ?case
  proof (cases "mpc s = M_Return")
    case True
    then have "mpc (snd (exec [] (tr, s))) = M_Return" by simp
    then show ?thesis by blast
  next
    case False
    from can_move[OF less.prems assms(3,4) False] obtain a e s' where
      st: "step a s = Some (e, s')" by blast
    have inv': "Collect_inv cs n k (tr @ [e], s')" by (rule step_inv[OF less.prems(1) st])
    have np': "\<not> panicked s'" by (rule step_alive[OF less.prems(1) assms(3) st])
    have "work s' < work s" using step_work[OF st np'] by simp
    from less.hyps[OF this inv' np'] obtain sched where
      "mpc (snd (exec sched (tr @ [e], s'))) = M_Return" by blast
    then have "mpc (snd (exec (a # sched) (tr, s))) = M_Return" using st by simp
    then show ?thesis by blast
  qed
qed

lemma Collect_returns:
  assumes "\<forall>c \<in> set cs. behaves c" "length (filter failed cs) \<le> 1024"
  shows "\<exists>sched'. mpc (snd (run cs n k (sched @ sched'))) = M_Return"
proof -
  obtain tr s where r: "run cs n k sched = (tr, s)" by (cases "run cs n k sched")
  have inv: "Collect_inv cs n k (tr, s)" using run_inv[of cs n k sched] r by simp
  have np: "\<not> panicked s" using run_alive[OF assms(1), of n k sched] r by simp
  from exec_returns[OF inv np assms] obtain sched' where
    "mpc (snd (exec sched' (tr, s))) = M_Return" by blast
  then have "mpc (snd (run cs n k (sched @ sched'))) = M_Return"
    using r by (simp add: run_def exec_append)
  then show ?thesis by blast
qed

lemma exec_length:
  assumes "Collect_inv cs n k (tr, s)" "\<forall>c \<in> set cs. behaves c"
  shows "length (fst (exec sched (tr, s))) + work (snd (exec sched (tr, s))) = length tr + work s"
  using assms(1)
proof (induction sched arbitrary: tr s)
  case Nil
  show ?case by simp
next
  case (Cons a sched)
  show ?case
  proof (cases "step a s")
    case None
    then show ?thesis using Cons by simp
  next
    case (Some r)
    obtain e s' where r: "r = (e, s')" by (cases r)
    have st: "step a s = Some (e, s')" using Some r by simp
    have inv': "Collect_inv cs n k (tr @ [e], s')"
      by (rule step_inv[OF Cons.prems st])
    have "Suc (work s') = work s"
      using step_work[OF st step_alive[OF Cons.prems assms(2) st]] .
    then show ?thesis using Cons.IH[OF inv'] st by simp
  qed
qed

lemma run_length:
  assumes "\<forall>c \<in> set cs. behaves c"
  shows "length (fst (run cs n k sched)) + work (snd (run cs n k sched))
    = work (Collect_init cs n k)"
  unfolding run_def using exec_length[OF Collect_inv_init assms] by simp

lemma up_in_hist_signalled:
  assumes "x \<in> set (task_hist t)" "sample_of x = Some frrCollectorUp" "task_ok t"
    "failed (t_collector t)"
  shows "signalled t"
  using assms
  by (cases "t_pc t")
    (auto simp: task_hist_def task_ok_def failed_def signalled_def produced_def collected_def
      verdict_def up_sample_def duration_sample_def split: if_splits dest: in_set_takeD)

lemma nsignalled_le:
  assumes "run cs n k sched = (tr, s)" "\<not> joined (mpc s)"
  shows "nsignalled s \<le> 1024"
proof -
  note p = run_parts[OF assms(1)]
  show ?thesis
  proof (cases "spawned (length cs) (mpc s) = 0")
    case True
    then have "tasks s = []" using length_tasks[OF p(2)] by simp
    then show ?thesis by (simp add: nsignalled_def)
  next
    case False
    then show ?thesis
      using p(5) assms(2) by (cases "mpc s") (auto simp: inv_errCh_def)
  qed
qed

text \<open>
  With more than 1024 collectors, all failing, some collector's goroutine has no up sample
  in the trace, whatever the run.
\<close>

lemma some_collector_without_up:
  assumes "1024 < length cs" "\<forall>c \<in> set cs. failed c"
  shows "\<exists>i<length cs. filter (\<lambda>x. sample_of x = Some frrCollectorUp)
           (acts_of (Task i) (fst (run cs n k sched))) = []"
proof (rule ccontr)
  obtain tr s where r: "run cs n k sched = (tr, s)" by (cases "run cs n k sched")
  note p = run_parts[OF r]
  assume "\<not> ?thesis"
  then have all: "\<And>i. i < length cs \<Longrightarrow>
      \<exists>x \<in> set (acts_of (Task i) tr). sample_of x = Some frrCollectorUp"
    using r by (auto simp: filter_empty_conv)
  have len: "length (tasks s) = length cs"
  proof (rule ccontr)
    assume "length (tasks s) \<noteq> length cs"
    then have lt: "length (tasks s) < length cs"
      using length_tasks[OF p(2)] p(2) by (simp add: inv_tasks_def)
    have "acts_of (Task (length (tasks s))) tr = []"
      using p(3) by (simp add: inv_hist_def)
    then show False using all[OF lt] by simp
  qed
  have "filter failed cs = cs" using assms(2) by (simp add: filter_id_conv)
  then have nj: "\<not> joined (mpc s)"
    using never_returns[of cs n k sched] assms(1) r by simp
  have sig: "signalled t" if t: "t \<in> set (tasks s)" for t
  proof -
    from t obtain i where i: "i < length (tasks s)" and ti: "tasks s ! i = t"
      by (auto simp: in_set_conv_nth)
    have h: "acts_of (Task i) tr = task_hist t"
      using p(3) i ti by (simp add: inv_hist_def)
    from all[of i] i len obtain x where
      x: "x \<in> set (task_hist t)" "sample_of x = Some frrCollectorUp"
      using h by auto
    have "t_collector t = cs ! i" using task_collector(1)[OF p(2) i] ti by simp
    then have f: "failed (t_collector t)" using assms(2) i len by simp
    have "task_ok t" using task_ok_nth[OF p(2) i] ti by simp
    from up_in_hist_signalled[OF x this f] show ?thesis .
  qed
  then have "filter signalled (tasks s) = tasks s" by (simp add: filter_id_conv)
  then have "nsignalled s = length cs" using len by (simp add: nsignalled_def)
  then show False using nsignalled_le[OF r nj] assms(1) by simp
qed

text \<open>After a panic nothing moves.\<close>

lemma exec_dead: "panicked s \<Longrightarrow> exec sched (tr, s) = (tr, s)"
  by (rule exec_stuck) (simp add: step_def)

text \<open>
  A goroutine gets past a call of its collector only when the call returns, and writes an
  up or duration sample only when the collector's name is valid UTF-8.
\<close>

lemma task_step_behaves:
  assumes "step (Task i) s = Some ((Task i, x), s')"
  shows "x = A_CollectReturn \<Longrightarrow> PromCollector_Collect_end (t_collector (tasks s ! i)) = Proceeds ()"
    and "x = A_CollectErrors \<Longrightarrow> Errors_CollectErrors_end (t_collector (tasks s ! i)) = Proceeds ()"
    and "is_status x \<Longrightarrow> ValidString (Name (t_collector (tasks s ! i)))"
    and "i < length (tasks s)"
proof -
  show i: "i < length (tasks s)"
    using assms by (auto simp: task_defs split: if_splits)
  show "PromCollector_Collect_end (t_collector (tasks s ! i)) = Proceeds ()"
    if "x = A_CollectReturn"
    using assms that i
    by (cases "t_pc (tasks s ! i)")
      (auto simp: task_defs split: if_splits outcome.splits option.splits)
  show "Errors_CollectErrors_end (t_collector (tasks s ! i)) = Proceeds ()"
    if "x = A_CollectErrors"
    using assms that i
    by (cases "t_pc (tasks s ! i)")
      (auto simp: task_defs split: if_splits outcome.splits option.splits)
  show "ValidString (Name (t_collector (tasks s ! i)))" if "is_status x"
    using assms that i
    by (cases "t_pc (tasks s ! i)")
      (auto simp: task_defs split: if_splits outcome.splits option.splits)
qed

lemma event_behaves:
  assumes "(Task i, x) \<in> set (fst (run cs n k sched))"
  shows "x = A_CollectReturn \<Longrightarrow> PromCollector_Collect_end (cs ! i) = Proceeds ()"
    and "x = A_CollectErrors \<Longrightarrow> Errors_CollectErrors_end (cs ! i) = Proceeds ()"
    and "is_status x \<Longrightarrow> ValidString (Name (cs ! i))"
    and "i < length cs"
proof -
  obtain pre post where "fst (run cs n k sched) = pre @ (Task i, x) # post"
    using assms by (meson split_list)
  from run_split[OF this] obtain sched1 b s0 s1 where
    r1: "run cs n k sched1 = (pre, s0)" and st: "step b s0 = Some ((Task i, x), s1)" by blast
  have b: "b = Task i" using step_actor[OF st] by simp
  note sb = task_step_behaves[OF st[unfolded b]]
  note p = run_parts[OF r1]
  note tc = task_collector[OF p(2) sb(4)]
  show "i < length cs" by (rule tc(2))
  show "PromCollector_Collect_end (cs ! i) = Proceeds ()" if "x = A_CollectReturn"
    using sb(1)[OF that] tc(1) by simp
  show "Errors_CollectErrors_end (cs ! i) = Proceeds ()" if "x = A_CollectErrors"
    using sb(2)[OF that] tc(1) by simp
  show "ValidString (Name (cs ! i))" if "is_status x"
    using sb(3)[OF that] tc(1) by simp
qed

lemma status_hist:
  assumes "x \<in> set (task_hist t)" "is_status x"
  shows "A_CollectReturn \<in> set (task_hist t) \<and> A_CollectErrors \<in> set (task_hist t)"
  using assms
  by (cases "t_pc t")
    (auto simp: task_hist_def produced_def collected_def verdict_def split: if_splits
      dest: in_set_takeD)

text \<open>
  A goroutine that has written its up sample or its duration sample belongs to a
  collector that behaves.
\<close>

lemma status_needs_behaves:
  assumes "(Task i, x) \<in> set (fst (run cs n k sched))" "is_status x"
  shows "i < length cs \<and> behaves (cs ! i)"
proof -
  obtain tr s where r: "run cs n k sched = (tr, s)" by (cases "run cs n k sched")
  note p = run_parts[OF r]
  have ev: "(Task i, x) \<in> set tr" using assms(1) r by simp
  note te = task_event[OF p(2) p(3) ev]
  have h: "acts_of (Task i) tr = task_hist (tasks s ! i)"
    using p(3) te(1) by (simp add: inv_hist_def)
  from status_hist[OF te(2) assms(2)]
  have "(Task i, A_CollectReturn) \<in> set (fst (run cs n k sched))"
    and "(Task i, A_CollectErrors) \<in> set (fst (run cs n k sched))"
    using h r by (simp_all add: mem_acts_of)
  then show ?thesis
    using event_behaves(1,2)[of i _ cs n k sched] event_behaves(3,4)[OF assms(1)] assms(2)
    by (simp add: behaves_def)
qed

text \<open>
  \<open>Collect\<close> returns only when every collector behaves and at most 1024 of them fail.
\<close>

lemma returned_behaves:
  assumes "run cs n k sched = (tr, s)" "mpc s = M_Return"
  shows "(\<forall>c \<in> set cs. behaves c) \<and> length (filter failed cs) \<le> 1024"
proof
  note p = run_parts[OF assms(1)]
  have j: "joined (mpc s)" using assms(2) by simp
  note jt = joined_tasks[OF p(2) p(4) j]
  show "\<forall>c \<in> set cs. behaves c"
  proof
    fix c assume "c \<in> set cs"
    then obtain i where i: "i < length cs" and c: "cs ! i = c"
      by (auto simp: in_set_conv_nth)
    have it: "i < length (tasks s)" using i jt(1) by simp
    have ex: "t_pc (tasks s ! i) = T_Exit" using jt(2) it by simp
    have h: "acts_of (Task i) tr = task_hist (tasks s ! i)"
      using p(3) it by (simp add: inv_hist_def)
    have "(Task i, duration_sample (t_collector (tasks s ! i)) (t_elapsed (tasks s ! i)))
        \<in> set (fst (run cs n k sched))"
      using exit_hist_mem(3)[OF ex] h assms(1) by (simp add: mem_acts_of)
    from status_needs_behaves[OF this] show "behaves c"
      using c by (simp add: duration_sample_def)
  qed
  show "length (filter failed cs) \<le> 1024"
    using never_returns[of cs n k sched] assms j by (cases "1024 < length (filter failed cs)") auto
qed

section \<open>The claims\<close>

text \<open>
  C1. The value of every \<open>frr_up\<close> sample of a run of \<open>Collect\<close> is 1 when the number of
  collectors whose \<open>CollectErrors\<close> returned a non-empty slice is less than the number of
  collectors, and 0 otherwise; it depends on the collectors' results in this cycle only
  (not on the package variables \<open>n\<close>, \<open>k\<close> nor on the schedule). Only \<open>Collect\<close> itself
  writes it, and when \<open>Collect\<close> has returned it is the last sample of the sink.
\<close>

theorem frrUp_value:
  assumes "run cs n k sched = (tr, s)"
  shows "(\<forall>a vt v ls. (a, A_Send (ConstMetric frrUp vt v ls)) \<in> set tr \<longrightarrow>
            a = Main \<and> vt = GaugeValue \<and> ls = []
            \<and> v = (if length (filter failed cs) < length cs then 1 else 0))
       \<and> (mpc s = M_Return \<longrightarrow>
            ch s \<noteq> []
            \<and> last (ch s) = ConstMetric frrUp GaugeValue
                 (if length (filter failed cs) < length cs then 1 else 0) [])"
proof (intro conjI allI impI)
  note p = run_parts[OF assms]
  fix a vt v ls
  assume ev: "(a, A_Send (ConstMetric frrUp vt v ls)) \<in> set tr"
  show a: "a = Main"
  proof (cases a)
    case Main
    then show ?thesis .
  next
    case (Task i)
    then have "A_Send (ConstMetric frrUp vt v ls) \<in> set (task_hist (tasks s ! i))"
      using task_event(2)[OF p(2) p(3)] ev by simp
    then show ?thesis using task_hist_no_frrUp by blast
  qed
  have "A_Send (ConstMetric frrUp vt v ls) \<in> set (main_hist s)"
    using ev a p(3) by (simp add: mem_acts_of inv_hist_def)
  note m = main_hist_frrUp[OF this]
  show "vt = GaugeValue" "ls = []" using m by simp_all
  have "errCount s = int (length (filter failed cs))"
    using returned_errCount[OF assms] m by simp
  moreover have "e_Collectors s = cs" using p(1) by (simp add: inv_static_def)
  ultimately show "v = (if length (filter failed cs) < length cs then 1 else 0)"
    using m by simp
next
  note p = run_parts[OF assms]
  assume r: "mpc s = M_Return"
  have ec: "errCount s = int (length (filter failed cs))"
    using returned_errCount[OF assms] r by simp
  have cs: "e_Collectors s = cs" using p(1) by (simp add: inv_static_def)
  have "acts_of Main tr = main_hist s" using p(3) by (simp add: inv_hist_def)
  then have "frrUp_sample (if length (filter failed cs) < length cs then 1 else 0)
      \<in> set (acts_of Main tr)"
    using r ec cs by (simp add: main_hist_def)
  then have "(Main, frrUp_sample (if length (filter failed cs) < length cs then 1 else 0)) \<in> set tr"
    by (simp add: mem_acts_of)
  then obtain pre post where
    tr: "tr = pre @ (Main, frrUp_sample (if length (filter failed cs) < length cs then 1 else 0)) # post"
    by (meson split_list)
  then have "post = []"
    using frrUp_is_last[of cs n k sched pre Main GaugeValue _ "[]" post] assms
    by (simp add: frrUp_sample_def)
  then have "sends tr = sends pre
      @ [ConstMetric frrUp GaugeValue (if length (filter failed cs) < length cs then 1 else 0) []]"
    using tr by (simp add: sends_snoc frrUp_sample_def)
  moreover have "ch s = sends tr" using p(6) by (simp add: inv_sink_def)
  ultimately show "ch s \<noteq> []"
    and "last (ch s) = ConstMetric frrUp GaugeValue
      (if length (filter failed cs) < length cs then 1 else 0) []"
    by simp_all
qed

theorem frrUp_value_witness:
  "run [demo_bgp, demo_ospf] 0 0 demo_sched = (demo_trace, demo_final)
   \<and> (Main, A_Send (ConstMetric frrUp GaugeValue 1 [])) \<in> set demo_trace
   \<and> length (filter failed [demo_bgp, demo_ospf]) = 1
   \<and> mpc demo_final = M_Return
   \<and> last (ch demo_final) = ConstMetric frrUp GaugeValue 1 []"
  using frrUp_value[OF demo_run]
  by (simp add: demo_run demo_trace_def demo_final_def failed_def demo_fields)

text \<open>
  C2. In every run of \<open>Collect\<close>, an up sample written by the goroutine of collector \<open>i\<close>
  is a gauge labelled with that collector's name; its value is 1 when \<open>CollectErrors\<close>
  returned the empty slice and 0 when it returned a non-empty one, whatever its length.
\<close>

theorem collector_up_value:
  assumes "(Task i, A_Send (ConstMetric frrCollectorUp vt v ls)) \<in> set (fst (run cs n k sched))"
  shows "i < length cs \<and> vt = GaugeValue \<and> ls = [Name (cs ! i)]
    \<and> (Errors_CollectErrors (cs ! i) = [] \<longrightarrow> v = 1)
    \<and> (Errors_CollectErrors (cs ! i) \<noteq> [] \<longrightarrow> v = 0)"
proof -
  obtain tr s where r: "run cs n k sched = (tr, s)" by (cases "run cs n k sched")
  note p = run_parts[OF r]
  have ev: "(Task i, A_Send (ConstMetric frrCollectorUp vt v ls)) \<in> set tr"
    using assms r by simp
  note te = task_event[OF p(2) p(3) ev]
  note tc = task_collector[OF p(2) te(1)]
  have "task_ok (tasks s ! i)"
    using p(2) te(1) by (simp add: inv_tasks_def list_all_length)
  from task_hist_up[OF te(2) this] show ?thesis using tc by simp
qed

theorem collector_up_value_witness:
  "(Task 1, A_Send (ConstMetric frrCollectorUp GaugeValue 0 [''ospf'']))
     \<in> set (fst (run [demo_bgp, demo_ospf] 0 0 demo_sched))
   \<and> length (Errors_CollectErrors ([demo_bgp, demo_ospf] ! 1)) = 2
   \<and> (Task 0, A_Send (ConstMetric frrCollectorUp GaugeValue 1 [''bgp'']))
     \<in> set (fst (run [demo_bgp, demo_ospf] 0 0 demo_sched))
   \<and> Errors_CollectErrors ([demo_bgp, demo_ospf] ! 0) = []"
  using collector_up_value[of 1 GaugeValue 0 "[''ospf'']" "[demo_bgp, demo_ospf]" 0 0 demo_sched]
    collector_up_value[of 0 GaugeValue 1 "[''bgp'']" "[demo_bgp, demo_ospf]" 0 0 demo_sched]
  by (simp add: demo_run demo_trace_def demo_fields)

text \<open>
  C3 (as amended). At process start the scrape counter is 0. What follows holds of calls
  of \<open>Collect\<close> that do not overlap: while a call runs, no other call touches the package
  variable (\<open>run\<close> is such a call, \<open>Collect_calls\<close> a sequence of them). In a call that has
  begun, the increment of the counter is the first step, before any goroutine exists; the
  counter never decreases. While the counter is below \<open>2 ^ 53\<close> the call increments it by
  exactly 1 and the \<open>frr_scrapes_total\<close> sample carries the incremented value, 1 on the
  first call; at \<open>2 ^ 53\<close> the \<open>float64\<close> counter stays where it is. After a sequence of
  calls from process start the counter is the number of calls, capped at \<open>2 ^ 53\<close>.
\<close>

theorem scrape_count_increment:
  assumes "run cs n k sched = (tr, s)" and "Main \<in> set sched"
  shows "fst process_start = 0
       \<and> n \<le> frrTotalScrapeCount s
       \<and> tr \<noteq> [] \<and> hd tr = (Main, A_Incr)
       \<and> (n < 2 ^ 53 \<longrightarrow> frrTotalScrapeCount s = n + 1)
       \<and> (\<forall>a vt v ls. (a, A_Send (ConstMetric frrScrapesTotal vt v ls)) \<in> set tr \<longrightarrow>
            a = Main \<and> v = frrTotalScrapeCount s \<and> (n < 2 ^ 53 \<longrightarrow> v = n + 1)
            \<and> (n = fst process_start \<longrightarrow> v = 1))
       \<and> (\<forall>calls. (\<forall>call \<in> set calls. Main \<in> set (snd call)) \<longrightarrow>
            fst (Collect_calls calls process_start) = min (length calls) (2 ^ 53))"
proof -
  note p = run_parts[OF assms(1)]
  have pc: "mpc s \<noteq> M_Incr" using run_started[OF assms(2), of cs n k] assms(1) by simp
  have cnt: "frrTotalScrapeCount s = float64_incr n"
    using run_count[of cs n k sched] assms(1) pc by simp
  have c1: "n \<le> frrTotalScrapeCount s" using cnt by (simp add: float64_incr_le)
  have c2: "n < 2 ^ 53 \<longrightarrow> frrTotalScrapeCount s = n + 1"
    using cnt by (simp add: float64_incr_exact)
  have mh: "acts_of Main tr = main_hist s" using p(3) by (simp add: inv_hist_def)
  have "main_hist s \<noteq> []"
    using pc by (cases "mpc s") (simp_all add: main_hist_def started_def)
  then have ne: "tr \<noteq> []" using mh by (auto simp: acts_of_def)
  then obtain e post where tr: "tr = e # post" by (cases tr) auto
  have hd: "hd tr = (Main, A_Incr)"
    using first_event[of cs n k sched e post] assms(1) tr by simp
  have c3: "a = Main \<and> v = frrTotalScrapeCount s \<and> (n < 2 ^ 53 \<longrightarrow> v = n + 1)
      \<and> (n = fst process_start \<longrightarrow> v = 1)"
    if ev: "(a, A_Send (ConstMetric frrScrapesTotal vt v ls)) \<in> set tr" for a vt v ls
  proof -
    have a: "a = Main"
    proof (cases a)
      case (Task i)
      then have "A_Send (ConstMetric frrScrapesTotal vt v ls) \<in> set (task_hist (tasks s ! i))"
        using task_event(2)[OF p(2) p(3)] ev by simp
      then show ?thesis using task_hist_no_frrUp by blast
    qed simp
    then have "A_Send (ConstMetric frrScrapesTotal vt v ls) \<in> set (main_hist s)"
      using ev mh by (simp add: mem_acts_of)
    from main_hist_scrapes[OF this] have "v = frrTotalScrapeCount s" by simp
    then show ?thesis using a cnt by (simp add: float64_incr_exact process_start_def)
  qed
  have c4: "fst (Collect_calls calls process_start) = min (length calls) (2 ^ 53)"
    if "\<forall>call \<in> set calls. Main \<in> set (snd call)" for calls
    using Collect_calls_count[OF that, of process_start]
    by (simp add: float64_incr_iter process_start_def)
  show ?thesis
    using c1 c2 ne hd c3 c4 by (simp add: process_start_def)
qed

theorem scrape_count_increment_witness:
  "run [demo_bgp, demo_ospf] 0 0 demo_sched = (demo_trace, demo_final)
   \<and> Main \<in> set demo_sched
   \<and> frrTotalScrapeCount demo_final = 0 + 1
   \<and> hd demo_trace = (Main, A_Incr)
   \<and> (Main, A_Send (ConstMetric frrScrapesTotal CounterValue 1 [])) \<in> set demo_trace
   \<and> fst (Collect_calls [([demo_bgp, demo_ospf], demo_sched)] process_start) = 1"
proof -
  have m: "Main \<in> set demo_sched" by (simp add: demo_sched_def)
  show ?thesis
    using scrape_count_increment[OF demo_run m] m
    by (simp add: demo_run demo_trace_def demo_final_def process_start_def)
qed

text \<open>
  Against the claim as first stated. A call that finds the counter at \<open>2 ^ 53\<close> returns
  with the counter unchanged and writes that value. And two calls that overlap, both
  begun at process start: the first increments, the second increments, then the first
  writes its \<open>frr_scrapes_total\<close> sample, with the value 2; between its own increment and
  its own sample the counter has moved by more than 1.
\<close>

theorem scrape_count_counterexample:
  "mpc (snd (run [] 9007199254740992 0 [Main, Main, Main, Main, Main, Main, Main, Main]))
     = M_Return
   \<and> frrTotalScrapeCount
       (snd (run [] 9007199254740992 0 [Main, Main, Main, Main, Main, Main, Main, Main]))
     = 9007199254740992
   \<and> ch (snd (run [] 9007199254740992 0 [Main, Main, Main, Main, Main, Main, Main, Main]))
     = [ConstMetric frrScrapesTotal CounterValue 9007199254740992 [],
        ConstMetric frrUp GaugeValue 0 []]
   \<and> fst (fst (run2 [] [] (fst process_start) (snd process_start)
                 [(First, Main), (Second, Main), (First, Main)]))
     = [(Main, A_Incr), (Main, A_Send (ConstMetric frrScrapesTotal CounterValue 2 []))]
   \<and> ch (snd (fst (run2 [] [] (fst process_start) (snd process_start)
                 [(First, Main), (Second, Main), (First, Main)])))
     = [ConstMetric frrScrapesTotal CounterValue 2 []]"
  by (simp add: run_defs run2_def shared_def process_start_def processErrors_loop.simps)

text \<open>
  C4 (as amended). When \<open>Collect\<close> has returned and the process has not panicked, the
  goroutine of every registered collector has written exactly one up sample and exactly
  one duration sample, both labelled with the collector's name, whether or not the
  collector reported errors, and the sink holds as many up samples, and as many duration
  samples, as there are collectors.

  A call does return, with no panic, when every collector behaves (its name is valid
  UTF-8, and its \<open>Collect\<close> and its \<open>CollectErrors\<close> return) and at most 1024 collectors
  report errors: then no run panics, every run can be continued until \<open>Collect\<close> has
  returned, a run that has not returned can take a step, and no run takes more steps
  than \<open>work\<close> of the first state. (The call is left to run: the sink takes every
  sample written to it, as the registry's channel does, \<open>log.Errorf\<close> returns, and
  nothing outside the call ends the process.)
\<close>

theorem one_up_one_duration:
  assumes "run cs n k sched = (tr, s)"
  shows "(mpc s = M_Return \<and> \<not> panicked s \<longrightarrow>
           (\<forall>i<length cs.
              filter (\<lambda>x. sample_of x = Some frrCollectorUp) (acts_of (Task i) tr)
                = [A_Send (ConstMetric frrCollectorUp GaugeValue
                     (if failed (cs ! i) then 0 else 1) [Name (cs ! i)])]
              \<and> (\<exists>d. filter (\<lambda>x. sample_of x = Some frrScrapeDuration) (acts_of (Task i) tr)
                = [A_Send (ConstMetric frrScrapeDuration GaugeValue d [Name (cs ! i)])]))
           \<and> length (filter (\<lambda>m. desc_of m = Some frrCollectorUp) (ch s)) = length cs
           \<and> length (filter (\<lambda>m. desc_of m = Some frrScrapeDuration) (ch s)) = length cs)
       \<and> ((\<forall>c \<in> set cs. behaves c) \<and> length (filter failed cs) \<le> 1024 \<longrightarrow>
            \<not> panicked s
            \<and> (\<exists>sched'. mpc (snd (run cs n k (sched @ sched'))) = M_Return
                  \<and> \<not> panicked (snd (run cs n k (sched @ sched'))))
            \<and> (mpc s \<noteq> M_Return \<longrightarrow> (\<exists>a e s'. step a s = Some (e, s')))
            \<and> length tr \<le> work (Collect_init cs n k))"
proof (intro conjI impI)
  assume h: "(\<forall>c \<in> set cs. behaves c) \<and> length (filter failed cs) \<le> 1024"
  then have bh: "\<forall>c \<in> set cs. behaves c" and len: "length (filter failed cs) \<le> 1024"
    by simp_all
  show np: "\<not> panicked s" using run_alive[OF bh, of n k sched] assms by simp
  from Collect_returns[OF bh len] obtain sched' where
    "mpc (snd (run cs n k (sched @ sched'))) = M_Return" by blast
  then show "\<exists>sched'. mpc (snd (run cs n k (sched @ sched'))) = M_Return
      \<and> \<not> panicked (snd (run cs n k (sched @ sched')))"
    using run_alive[OF bh] by blast
  show "length tr \<le> work (Collect_init cs n k)"
    using run_length[OF bh, of n k sched] assms by simp
  assume nr: "mpc s \<noteq> M_Return"
  have inv: "Collect_inv cs n k (tr, s)" using run_inv[of cs n k sched] assms by simp
  from can_move[OF inv np bh len nr] show "\<exists>a e s'. step a s = Some (e, s')" .
next
  assume "mpc s = M_Return \<and> \<not> panicked s"
  then have ret: "mpc s = M_Return" by simp
  note p = run_parts[OF assms(1)]
  have j: "joined (mpc s)" using ret by simp
  note jt = joined_tasks[OF p(2) p(4) j]
  have hist: "acts_of (Task i) tr = task_hist (tasks s ! i)" if "i < length cs" for i
    using p(3) that jt(1) by (simp add: inv_hist_def)
  have none: "\<forall>i. length cs \<le> i \<longrightarrow> acts_of (Task i) tr = []"
    using p(3) jt(1) by (simp add: inv_hist_def)
  have ex: "t_pc (tasks s ! i) = T_Exit" if "i < length cs" for i
    using jt(1,2) that by simp
  have col: "t_collector (tasks s ! i) = cs ! i" if "i < length cs" for i
    using task_collector(1)[OF p(2)] that jt(1) by simp
  have up: "filter (\<lambda>x. sample_of x = Some frrCollectorUp) (acts_of (Task i) tr)
      = [up_sample (cs ! i) (if failed (cs ! i) then 0 else 1)]" if "i < length cs" for i
    using filter_exit_hist(1)[OF ex[OF that]] hist[OF that] col[OF that] by simp
  have du: "filter (\<lambda>x. sample_of x = Some frrScrapeDuration) (acts_of (Task i) tr)
      = [duration_sample (cs ! i) (t_elapsed (tasks s ! i))]" if "i < length cs" for i
    using filter_exit_hist(2)[OF ex[OF that]] hist[OF that] col[OF that] by simp
  have mh: "acts_of Main tr = main_hist s" using p(3) by (simp add: inv_hist_def)
  have sk: "ch s = sends tr" using p(6) by (simp add: inv_sink_def)
  have "length (filter (\<lambda>m. desc_of m = Some frrCollectorUp) (ch s))
      = (\<Sum>j<length cs. length (filter (\<lambda>x. sample_of x = Some frrCollectorUp)
           (acts_of (Task j) tr)))"
    using count_by_actor[OF none, of "\<lambda>x. sample_of x = Some frrCollectorUp"]
    by (simp add: sk sends_filter mh main_hist_no_status)
  also have "\<dots> = (\<Sum>j<length cs. 1)"
    by (intro sum.cong) (simp_all add: up)
  finally show "length (filter (\<lambda>m. desc_of m = Some frrCollectorUp) (ch s)) = length cs"
    by simp
  have "length (filter (\<lambda>m. desc_of m = Some frrScrapeDuration) (ch s))
      = (\<Sum>j<length cs. length (filter (\<lambda>x. sample_of x = Some frrScrapeDuration)
           (acts_of (Task j) tr)))"
    using count_by_actor[OF none, of "\<lambda>x. sample_of x = Some frrScrapeDuration"]
    by (simp add: sk sends_filter mh main_hist_no_status)
  also have "\<dots> = (\<Sum>j<length cs. 1)"
    by (intro sum.cong) (simp_all add: du)
  finally show "length (filter (\<lambda>m. desc_of m = Some frrScrapeDuration) (ch s)) = length cs"
    by simp
  show "\<forall>i<length cs.
      filter (\<lambda>x. sample_of x = Some frrCollectorUp) (acts_of (Task i) tr)
        = [A_Send (ConstMetric frrCollectorUp GaugeValue
             (if failed (cs ! i) then 0 else 1) [Name (cs ! i)])]
      \<and> (\<exists>d. filter (\<lambda>x. sample_of x = Some frrScrapeDuration) (acts_of (Task i) tr)
        = [A_Send (ConstMetric frrScrapeDuration GaugeValue d [Name (cs ! i)])])"
    using up du by (auto simp: up_sample_def duration_sample_def)
qed

theorem one_up_one_duration_witness:
  "run [demo_bgp, demo_ospf] 0 0 demo_sched = (demo_trace, demo_final)
   \<and> mpc demo_final = M_Return \<and> \<not> panicked demo_final
   \<and> behaves demo_bgp \<and> behaves demo_ospf
   \<and> length (filter failed [demo_bgp, demo_ospf]) \<le> 1024
   \<and> filter (\<lambda>x. sample_of x = Some frrCollectorUp) (acts_of (Task 1) demo_trace)
       = [A_Send (ConstMetric frrCollectorUp GaugeValue 0 [''ospf''])]
   \<and> filter (\<lambda>x. sample_of x = Some frrScrapeDuration) (acts_of (Task 1) demo_trace)
       = [A_Send (ConstMetric frrScrapeDuration GaugeValue 17 [''ospf''])]
   \<and> length (filter (\<lambda>m. desc_of m = Some frrCollectorUp) (ch demo_final)) = 2
   \<and> length (filter (\<lambda>m. desc_of m = Some frrScrapeDuration) (ch demo_final)) = 2
   \<and> length demo_trace \<le> work (Collect_init [demo_bgp, demo_ospf] 0 0)
   \<and> (\<exists>sched'. mpc (snd (run [demo_bgp, demo_ospf] 0 0 (take 6 demo_sched @ sched')))
         = M_Return)"
proof -
  have b: "behaves demo_bgp" "behaves demo_ospf"
    by (simp_all add: behaves_def demo_bgp_def demo_ospf_def demo_names)
  have l: "length (filter failed [demo_bgp, demo_ospf]) \<le> 1024"
    by (rule order_trans[OF length_filter_le]) simp
  have "run [demo_bgp, demo_ospf] 0 0 (take 6 demo_sched)
      = (fst (run [demo_bgp, demo_ospf] 0 0 (take 6 demo_sched)),
         snd (run [demo_bgp, demo_ospf] 0 0 (take 6 demo_sched)))"
    by simp
  from one_up_one_duration[OF this] b l
  have "\<exists>sched'. mpc (snd (run [demo_bgp, demo_ospf] 0 0 (take 6 demo_sched @ sched')))
      = M_Return"
    by auto
  then show ?thesis
    using one_up_one_duration[OF demo_run] b l
    by (simp add: demo_run demo_trace_def demo_final_def acts_of_def)
qed

text \<open>
  Against the claim as first stated: lists of collectors with which some collector never
  gets its up sample, whatever the schedule. With 1025 collectors that all report
  errors, the send to \<open>errCh\<close> of one of them blocks, and \<open>Collect\<close> never returns. With
  the collector whose name is the byte \<open>0xFF\<close>, \<open>MustNewConstMetric\<close> panics at line 123:
  in the run shown the sink holds \<open>frr_scrapes_total\<close> and the collector's own sample, and
  the process has panicked. With the collector whose \<open>Collect\<close> never returns the
  goroutine stays at line 112 and \<open>Collect\<close> never returns; with the one whose
  \<open>CollectErrors\<close> panics the goroutine never gets past line 114.
\<close>

theorem one_up_one_duration_counterexample:
  "(\<forall>sched.
      mpc (snd (run (replicate 1025 demo_ospf) 0 0 sched)) \<noteq> M_Return
      \<and> (\<exists>i<1025. filter (\<lambda>x. sample_of x = Some frrCollectorUp)
            (acts_of (Task i) (fst (run (replicate 1025 demo_ospf) 0 0 sched))) = []))
   \<and> (\<forall>sched. filter is_status (acts_of (Task 0) (fst (run [demo_latin1] 0 0 sched))) = [])
   \<and> (\<forall>sched. filter is_status (acts_of (Task 0) (fst (run [demo_crash] 0 0 sched))) = [])
   \<and> (\<forall>sched.
        mpc (snd (run [demo_stuck] 0 0 sched)) \<noteq> M_Return
        \<and> filter is_status (acts_of (Task 0) (fst (run [demo_stuck] 0 0 sched))) = [])
   \<and> run [demo_latin1] 0 0
        [Main, Main, Main, Main, Main, Task 0, Task 0, Task 0, Task 0, Task 0]
      = ([(Main, A_Incr), (Main, A_Send (ConstMetric frrScrapesTotal CounterValue 1 [])),
          (Main, A_Make), (Main, A_Go 0), (Main, A_RangeDone), (Task 0, A_Now),
          (Task 0, A_Send (DomainMetric ''d1'')), (Task 0, A_CollectReturn),
          (Task 0, A_CollectErrors), (Task 0, A_Panic)],
         snd (run [demo_latin1] 0 0
           [Main, Main, Main, Main, Main, Task 0, Task 0, Task 0, Task 0, Task 0]))
   \<and> panicked (snd (run [demo_latin1] 0 0
        [Main, Main, Main, Main, Main, Task 0, Task 0, Task 0, Task 0, Task 0]))
   \<and> ch (snd (run [demo_latin1] 0 0
        [Main, Main, Main, Main, Main, Task 0, Task 0, Task 0, Task 0, Task 0]))
      = [ConstMetric frrScrapesTotal CounterValue 1 [], DomainMetric ''d1'']"
proof -
  have f: "\<forall>c \<in> set (replicate 1025 demo_ospf). failed c"
    by (simp add: failed_def demo_fields)
  then have "filter failed (replicate 1025 demo_ospf) = replicate 1025 demo_ospf"
    by (simp only: filter_id_conv)
  then have "\<not> joined (mpc (snd (run (replicate 1025 demo_ospf) 0 0 sched)))" for sched
    using never_returns[of "replicate 1025 demo_ospf" 0 0 sched] by simp
  then have a1: "mpc (snd (run (replicate 1025 demo_ospf) 0 0 sched)) \<noteq> M_Return" for sched
    using joined.simps(4) by metis
  have a2: "\<exists>i<1025. filter (\<lambda>x. sample_of x = Some frrCollectorUp)
      (acts_of (Task i) (fst (run (replicate 1025 demo_ospf) 0 0 sched))) = []" for sched
    using some_collector_without_up[OF _ f, of 0 0 sched] by simp
  have nb: "\<not> behaves demo_latin1" "\<not> behaves demo_crash" "\<not> behaves demo_stuck"
    by (simp_all add: behaves_def demo_latin1_def demo_stuck_def demo_crash_def demo_names)
  have ns: "filter is_status (acts_of (Task 0) (fst (run [c] 0 0 sched))) = []"
    if "\<not> behaves c" for c sched
    using status_needs_behaves[of 0 _ "[c]" 0 0 sched] that
    by (auto simp: filter_empty_conv mem_acts_of[symmetric])
  have nr: "mpc (snd (run [demo_stuck] 0 0 sched)) \<noteq> M_Return" for sched
    using returned_behaves[of "[demo_stuck]" 0 0 sched "fst (run [demo_stuck] 0 0 sched)"
        "snd (run [demo_stuck] 0 0 sched)"] nb(3)
    by auto
  have ev: "run [demo_latin1] 0 0
        [Main, Main, Main, Main, Main, Task 0, Task 0, Task 0, Task 0, Task 0]
      = ([(Main, A_Incr), (Main, A_Send (ConstMetric frrScrapesTotal CounterValue 1 [])),
          (Main, A_Make), (Main, A_Go 0), (Main, A_RangeDone), (Task 0, A_Now),
          (Task 0, A_Send (DomainMetric ''d1'')), (Task 0, A_CollectReturn),
          (Task 0, A_CollectErrors), (Task 0, A_Panic)],
         snd (run [demo_latin1] 0 0
           [Main, Main, Main, Main, Main, Task 0, Task 0, Task 0, Task 0, Task 0]))"
    and pn: "panicked (snd (run [demo_latin1] 0 0
        [Main, Main, Main, Main, Main, Task 0, Task 0, Task 0, Task 0, Task 0]))"
    and sk: "ch (snd (run [demo_latin1] 0 0
        [Main, Main, Main, Main, Main, Task 0, Task 0, Task 0, Task 0, Task 0]))
      = [ConstMetric frrScrapesTotal CounterValue 1 [], DomainMetric ''d1'']"
    by (simp_all add: run_defs demo_latin1_def demo_bgp_def demo_names)
  show ?thesis
    using a1 a2 ns[OF nb(1)] ns[OF nb(2)] ns[OF nb(3)] nr ev pn sk by blast
qed

text \<open>
  C5 (as amended). The capacity of \<open>errCh\<close> is the constant 1024, whatever the number of
  registered collectors, and in every run each goroutine sends to \<open>errCh\<close> at most once.
  When at most 1024 collectors are registered, the capacity is at least their number and
  the send of a goroutine that stands at line 117 does not block: the channel takes the
  value, and the goroutine takes that step whenever the process is alive.
\<close>

theorem errCh_send_never_blocks:
  assumes "run cs n k sched = (tr, s)"
  shows "(mpc s \<noteq> M_Incr \<and> mpc s \<noteq> M_Scrapes \<and> mpc s \<noteq> M_Make \<longrightarrow> cap (errCh s) = 1024)
       \<and> (\<forall>i. length (filter (\<lambda>e. e = (Task i, A_ErrSend)) tr) \<le> 1)
       \<and> (length cs \<le> 1024 \<longrightarrow>
            (mpc s \<noteq> M_Incr \<and> mpc s \<noteq> M_Scrapes \<and> mpc s \<noteq> M_Make \<longrightarrow>
               length cs \<le> cap (errCh s))
            \<and> (\<forall>i<length (tasks s). t_pc (tasks s ! i) = T_ErrSend \<longrightarrow>
                 (\<exists>q. chan_send (errCh s) 1 = Proceeds q)
                 \<and> (\<not> panicked s \<longrightarrow>
                      (\<exists>s'. step (Task i) s = Some ((Task i, A_ErrSend), s')))))"
proof -
  note p = run_parts[OF assms(1)]
  have c1: "cap (errCh s) = 1024"
    if "mpc s \<noteq> M_Incr \<and> mpc s \<noteq> M_Scrapes \<and> mpc s \<noteq> M_Make"
    using p(5) that by (cases "mpc s") (auto simp: inv_errCh_def)
  have c2: "length (filter (\<lambda>e. e = (Task i, A_ErrSend)) tr) \<le> 1" for i
  proof -
    have "acts_of (Task i) tr = (if i < length (tasks s) then task_hist (tasks s ! i) else [])"
      using p(3) by (simp add: inv_hist_def)
    then show ?thesis
      using task_hist_one_ErrSend[of "tasks s ! i"] by (simp add: count_event)
  qed
  have c3: "(\<exists>q. chan_send (errCh s) 1 = Proceeds q)
      \<and> (\<not> panicked s \<longrightarrow> (\<exists>s'. step (Task i) s = Some ((Task i, A_ErrSend), s')))"
    if len: "length cs \<le> 1024" and i: "i < length (tasks s)"
      and pc: "t_pc (tasks s ! i) = T_ErrSend" for i
  proof -
    have "length (filter failed cs) \<le> length cs" by simp
    then have "length (filter failed cs) \<le> 1024" using len by linarith
    from errSend_enabled[OF p(2) p(4) p(5) this i pc] show ?thesis by blast
  qed
  show ?thesis
    using c1 c2 c3 by simp
qed

theorem errCh_send_never_blocks_witness:
  "run [demo_bgp, demo_ospf] 0 0 demo_sched = (demo_trace, demo_final)
   \<and> length [demo_bgp, demo_ospf] \<le> 1024
   \<and> cap (errCh demo_final) = 1024
   \<and> length (filter (\<lambda>e. e = (Task 1, A_ErrSend)) demo_trace) = 1
   \<and> t_pc (tasks (snd (run [demo_bgp, demo_ospf] 0 0 (take 13 demo_sched))) ! 1) = T_ErrSend
   \<and> (\<exists>q. chan_send (errCh (snd (run [demo_bgp, demo_ospf] 0 0 (take 13 demo_sched)))) 1
             = Proceeds q)
   \<and> (\<exists>s'. step (Task 1) (snd (run [demo_bgp, demo_ospf] 0 0 (take 13 demo_sched)))
              = Some ((Task 1, A_ErrSend), s'))"
proof -
  let ?r = "run [demo_bgp, demo_ospf] 0 0 (take 13 demo_sched)"
  have a: "cap (errCh demo_final) = 1024
      \<and> length (filter (\<lambda>e. e = (Task 1, A_ErrSend)) demo_trace) = 1"
    using errCh_send_never_blocks[OF demo_run]
    by (simp add: demo_trace_def demo_final_def)
  have len: "length (tasks (snd ?r)) = 2"
    and pc: "t_pc (tasks (snd ?r) ! 1) = T_ErrSend"
    and np: "\<not> panicked (snd ?r)"
    by (simp_all add: run_defs demo_sched_def demo_bgp_def demo_ospf_def demo_names)
  have "?r = (fst ?r, snd ?r)" by simp
  from errCh_send_never_blocks[OF this]
  have "\<forall>i<length (tasks (snd ?r)). t_pc (tasks (snd ?r) ! i) = T_ErrSend \<longrightarrow>
      (\<exists>q. chan_send (errCh (snd ?r)) 1 = Proceeds q)
      \<and> (\<not> panicked (snd ?r) \<longrightarrow>
           (\<exists>s'. step (Task i) (snd ?r) = Some ((Task i, A_ErrSend), s')))"
    by simp
  from this[rule_format, of 1] len pc np
  have "(\<exists>q. chan_send (errCh (snd ?r)) 1 = Proceeds q)
      \<and> (\<exists>s'. step (Task 1) (snd ?r) = Some ((Task 1, A_ErrSend), s'))" by simp
  then show ?thesis using a pc demo_run by simp
qed

text \<open>
  Against the claim as first stated: with 1025 registered collectors the capacity of
  \<open>errCh\<close> is below their number.
\<close>

theorem errCh_capacity_counterexample:
  "cap (errCh (snd (run (replicate 1025 demo_ospf) 0 0 [Main, Main, Main])))
     < length (replicate 1025 demo_ospf)"
  by (simp add: run_defs)

text \<open>
  C6. \<open>processErrors\<close> returns on every closed channel, with the number of queued values
  as its count and the channel drained. In every run, when \<open>Collect\<close> is about to call it
  the channel is closed and holds one signal per collector whose \<open>CollectErrors\<close> returned
  a non-empty slice, so the call returns that number; and the count a run has drained is
  the number of sends to \<open>errCh\<close> of that run and the number of such collectors.
\<close>

theorem processErrors_count:
  assumes "run cs n k sched = (tr, s)"
  shows "(\<forall>q. closed q \<longrightarrow>
            processErrors q = Proceeds (int (length (buf q)), q\<lparr>buf := []\<rparr>))
       \<and> (mpc s = M_ProcessErrors \<longrightarrow>
            closed (errCh s) \<and> length (buf (errCh s)) = length (filter failed cs)
            \<and> processErrors (errCh s)
                = Proceeds (int (length (filter failed cs)), (errCh s)\<lparr>buf := []\<rparr>))
       \<and> (\<forall>c. (Main, A_ProcessErrors c) \<in> set tr \<longrightarrow>
            c = int (length (filter failed cs))
            \<and> c = int (length (filter (\<lambda>e. snd e = A_ErrSend) tr))
            \<and> errCount s = c)"
proof (intro conjI allI impI)
  fix q :: "int chan"
  assume "closed q"
  then show "processErrors q = Proceeds (int (length (buf q)), q\<lparr>buf := []\<rparr>)"
    by (simp add: processErrors_def processErrors_loop_any)
next
  note p = run_parts[OF assms]
  assume pc: "mpc s = M_ProcessErrors"
  then have j: "joined (mpc s)" by simp
  have q: "errCh s = \<lparr>buf = replicate (nsignalled s) 1, cap = 1024, closed = True\<rparr>"
    using p(5) pc by (simp add: inv_errCh_def)
  show c: "closed (errCh s)" using q by simp
  show l: "length (buf (errCh s)) = length (filter failed cs)"
    using q joined_tasks(3)[OF p(2) p(4) j] by simp
  show "processErrors (errCh s)
      = Proceeds (int (length (filter failed cs)), (errCh s)\<lparr>buf := []\<rparr>)"
    using c l by (simp add: processErrors_def processErrors_loop_any)
next
  note p = run_parts[OF assms]
  fix c
  assume "(Main, A_ProcessErrors c) \<in> set tr"
  then have "A_ProcessErrors c \<in> set (main_hist s)"
    using p(3) by (simp add: mem_acts_of inv_hist_def)
  note m = main_hist_ProcessErrors[OF this]
  then have j: "joined (mpc s)" by auto
  show "errCount s = c" using m by simp
  have "errCount s = int (length (filter failed cs))"
    using returned_errCount[OF assms] m by blast
  then show "c = int (length (filter failed cs))" using m by simp
  then show "c = int (length (filter (\<lambda>e. snd e = A_ErrSend) tr))"
    using p(6) joined_tasks(3)[OF p(2) p(4) j] by (simp add: inv_sink_def)
qed

theorem processErrors_count_witness:
  "run [demo_bgp, demo_ospf] 0 0 demo_sched = (demo_trace, demo_final)
   \<and> (Main, A_ProcessErrors 1) \<in> set demo_trace
   \<and> length (filter failed [demo_bgp, demo_ospf]) = 1
   \<and> length (filter (\<lambda>e. snd e = A_ErrSend) demo_trace) = 1
   \<and> closed (errCh demo_final)
   \<and> processErrors (errCh demo_final) = Proceeds (0, errCh demo_final)"
  using processErrors_count[OF demo_run]
  by (simp add: demo_run demo_trace_def demo_final_def failed_def demo_fields)

text \<open>
  C7 (as amended). With no collector registered, a call of \<open>Collect\<close> that has returned has
  written exactly two samples, \<open>frr_scrapes_total\<close> and \<open>frr_up\<close> with value 0, and has
  taken no step other than those of \<open>Collect\<close> itself; the scrape counter has been
  incremented, by exactly 1 while it is below \<open>2 ^ 53\<close>. Eight steps of \<open>Collect\<close> make the
  call return.
\<close>

theorem no_collectors:
  assumes "run [] n k sched = (tr, s)" and "mpc s = M_Return"
  shows "ch s = [ConstMetric frrScrapesTotal CounterValue (frrTotalScrapeCount s) [],
                 ConstMetric frrUp GaugeValue 0 []]
       \<and> tr = map (Pair Main)
            [A_Incr, A_Send (ConstMetric frrScrapesTotal CounterValue (frrTotalScrapeCount s) []),
             A_Make, A_RangeDone, A_Wait, A_Close, A_ProcessErrors 0,
             A_Send (ConstMetric frrUp GaugeValue 0 [])]
       \<and> (n < 2 ^ 53 \<longrightarrow> frrTotalScrapeCount s = n + 1)
       \<and> n \<le> frrTotalScrapeCount s
       \<and> mpc (snd (run [] n k [Main, Main, Main, Main, Main, Main, Main, Main])) = M_Return"
proof -
  note p = run_parts[OF assms(1)]
  have j: "joined (mpc s)" using assms(2) by simp
  have "length (tasks s) = 0" using joined_tasks(1)[OF p(2) p(4) j] by simp
  then have "\<And>j. acts_of (Task j) tr = []" using p(3) by (simp add: inv_hist_def)
  from only_main[OF this] have tr: "tr = map (Pair Main) (main_hist s)"
    using p(3) by (simp add: inv_hist_def)
  have ec: "errCount s = 0" using returned_errCount[OF assms(1)] assms(2) by simp
  have cs: "e_Collectors s = []" using p(1) by (simp add: inv_static_def)
  have mh: "main_hist s
      = [A_Incr, A_Send (ConstMetric frrScrapesTotal CounterValue (frrTotalScrapeCount s) []),
         A_Make, A_RangeDone, A_Wait, A_Close, A_ProcessErrors 0,
         A_Send (ConstMetric frrUp GaugeValue 0 [])]"
    using assms(2) ec cs
    by (simp add: main_hist_def started_def scrapes_sample_def frrUp_sample_def)
  have "ch s = sends tr" using p(6) by (simp add: inv_sink_def)
  then have c1: "ch s = [ConstMetric frrScrapesTotal CounterValue (frrTotalScrapeCount s) [],
                 ConstMetric frrUp GaugeValue 0 []]"
    using tr mh by (simp add: sends_def)
  have cnt: "frrTotalScrapeCount s = float64_incr n"
    using p(1) assms(2) by (simp add: inv_static_def)
  have "mpc (snd (run [] n k [Main, Main, Main, Main, Main, Main, Main, Main])) = M_Return"
    by (simp add: run_defs processErrors_loop.simps)
  then show ?thesis
    using c1 tr mh cnt by (simp add: float64_incr_def)
qed

theorem no_collectors_witness:
  "mpc (snd (run [] 0 0 [Main, Main, Main, Main, Main, Main, Main, Main])) = M_Return
   \<and> ch (snd (run [] 0 0 [Main, Main, Main, Main, Main, Main, Main, Main]))
       = [ConstMetric frrScrapesTotal CounterValue 1 [], ConstMetric frrUp GaugeValue 0 []]
   \<and> frrTotalScrapeCount (snd (run [] 0 0 [Main, Main, Main, Main, Main, Main, Main, Main])) = 1"
  using no_collectors[of 0 0 "[Main, Main, Main, Main, Main, Main, Main, Main]"
      "fst (run [] 0 0 [Main, Main, Main, Main, Main, Main, Main, Main])"
      "snd (run [] 0 0 [Main, Main, Main, Main, Main, Main, Main, Main])"]
  by (simp add: run_defs processErrors_loop.simps)

theorem no_collectors_counterexample:
  "mpc (snd (run [] 9007199254740992 7 [Main, Main, Main, Main, Main, Main, Main, Main, Main]))
     = M_Return
   \<and> frrTotalScrapeCount
       (snd (run [] 9007199254740992 7 [Main, Main, Main, Main, Main, Main, Main, Main, Main]))
     \<noteq> 9007199254740992 + 1"
  by (simp add: run_defs processErrors_loop.simps)

text \<open>
  C8. \<open>Describe\<close> declares the descriptor \<open>frr_scrape_errors_total\<close>. In no run of \<open>Collect\<close>
  does any actor write a sample of that descriptor, the sink never holds one, and the
  package variable \<open>frrTotalErrorCount\<close> keeps the value it had when the call began.
\<close>

theorem scrape_errors_total_unused:
  "fqName frrScrapeErrTotal = ''frr_scrape_errors_total''
   \<and> OwnDesc frrScrapeErrTotal \<in> set (Describe cs)
   \<and> (\<forall>a vt v ls. (a, A_Send (ConstMetric frrScrapeErrTotal vt v ls))
          \<notin> set (fst (run cs n k sched)))
   \<and> (\<forall>vt v ls. ConstMetric frrScrapeErrTotal vt v ls \<notin> set (ch (snd (run cs n k sched))))
   \<and> frrTotalErrorCount (snd (run cs n k sched)) = k"
proof -
  obtain tr s where r: "run cs n k sched = (tr, s)" by (cases "run cs n k sched")
  note p = run_parts[OF r]
  have ev: "(a, A_Send (ConstMetric frrScrapeErrTotal vt v ls)) \<notin> set tr" for a vt v ls
  proof
    assume ev: "(a, A_Send (ConstMetric frrScrapeErrTotal vt v ls)) \<in> set tr"
    show False
    proof (cases a)
      case Main
      then have "A_Send (ConstMetric frrScrapeErrTotal vt v ls) \<in> set (main_hist s)"
        using ev p(3) by (simp add: mem_acts_of inv_hist_def)
      then show False using main_hist_sends by blast
    next
      case (Task i)
      then have "A_Send (ConstMetric frrScrapeErrTotal vt v ls) \<in> set (task_hist (tasks s ! i))"
        using task_event(2)[OF p(2) p(3)] ev by simp
      then show False using task_hist_no_frrUp by blast
    qed
  qed
  have "ch s = sends tr" using p(6) by (simp add: inv_sink_def)
  then have "ConstMetric frrScrapeErrTotal vt v ls \<notin> set (ch s)" for vt v ls
    using ev by (simp add: sends_mem)
  moreover have "frrTotalErrorCount s = k" using p(1) by (simp add: inv_static_def)
  ultimately show ?thesis using ev r by (simp add: Describe_def namespace_def)
qed

theorem scrape_errors_total_unused_witness:
  "OwnDesc frrScrapeErrTotal \<in> set (Describe [demo_bgp, demo_ospf])
   \<and> frrTotalErrorCount (snd (run [demo_bgp, demo_ospf] 0 0 demo_sched)) = 0
   \<and> ConstMetric frrScrapeErrTotal CounterValue 0 []
        \<notin> set (ch (snd (run [demo_bgp, demo_ospf] 0 0 demo_sched)))
   \<and> length (ch (snd (run [demo_bgp, demo_ospf] 0 0 demo_sched))) = 9"
  using scrape_errors_total_unused[of "[demo_bgp, demo_ospf]" 0 0 demo_sched]
  by (simp add: demo_run demo_final_def)

text \<open>
  C9. Take any run and any step in which goroutine \<open>i\<close> writes its up sample or its
  duration sample. Before that step, \<open>PromCollector.Collect\<close> has returned and
  \<open>CollectErrors\<close> has returned in that goroutine; if the step writes the up sample with
  value 0, the goroutine has completed its send to \<open>errCh\<close> before; and after that step
  the goroutine writes no sample of the collector's own.
\<close>

theorem status_samples_come_last:
  assumes "fst (run cs n k sched) = pre @ (a, x) # post" and "is_status x"
  shows "(\<exists>i<length cs. a = Task i)
       \<and> (a, A_CollectReturn) \<in> set pre \<and> (a, A_CollectErrors) \<in> set pre
       \<and> (\<forall>vt ls. x = A_Send (ConstMetric frrCollectorUp vt 0 ls) \<longrightarrow> (a, A_ErrSend) \<in> set pre)
       \<and> (\<forall>y. is_domain y \<longrightarrow> (a, y) \<notin> set post)"
proof -
  from run_split[OF assms(1)] obtain sched1 b sched2 s0 s1 where
    r1: "run cs n k sched1 = (pre, s0)" and st: "step b s0 = Some ((a, x), s1)" by blast
  have b: "b = a" using step_actor[OF st] by simp
  obtain i where a: "a = Task i"
    using main_step_not_status st b assms(2) by (cases a) auto
  note p = run_parts[OF r1]
  note ts = task_step_status[OF st[unfolded b a] assms(2)]
  then have i: "i < length (tasks s0)" by simp
  note tc = task_collector[OF p(2) i]
  have h: "acts_of (Task i) pre = task_hist (tasks s0 ! i)"
    using p(3) i by (simp add: inv_hist_def)
  have coll: "set (collected (cs ! i)) \<subseteq> set (acts_of (Task i) pre)"
    using ts h tc(1) by (auto simp: task_hist_def)
  have "A_CollectReturn \<in> set (collected (cs ! i))" "A_CollectErrors \<in> set (collected (cs ! i))"
    by (simp_all add: collected_def)
  then have c1: "(a, A_CollectReturn) \<in> set pre" and c2: "(a, A_CollectErrors) \<in> set pre"
    using coll a by (auto simp: mem_acts_of)
  have c3: "(a, A_ErrSend) \<in> set pre" if "x = A_Send (ConstMetric frrCollectorUp vt 0 ls)" for vt ls
  proof -
    have "t_pc (tasks s0 ! i) = T_Up0"
      using ts that by (auto simp: up_sample_def)
    then have "A_ErrSend \<in> set (acts_of (Task i) pre)"
      using h by (simp add: task_hist_def)
    then show ?thesis using a by (simp add: mem_acts_of)
  qed
  have c4: "(a, y) \<notin> set post" if "is_domain y" for y
  proof
    assume "(a, y) \<in> set post"
    then obtain p1 p2 where "post = p1 @ (a, y) # p2" by (meson split_list)
    then have "fst (run cs n k sched) = (pre @ (a, x) # p1) @ (a, y) # p2"
      using assms(1) by simp
    from run_split[OF this] obtain sched1' b' s0' s1' where
      r1': "run cs n k sched1' = (pre @ (a, x) # p1, s0')"
      and st': "step b' s0' = Some ((a, y), s1')" by blast
    have b': "b' = Task i" using step_actor[OF st'] a by simp
    note p' = run_parts[OF r1']
    from task_step_domain[OF st'[unfolded b' a] that] obtain j where
      i': "i < length (tasks s0')" and pc: "t_pc (tasks s0' ! i) = T_Collect j" by blast
    have "acts_of (Task i) (pre @ (a, x) # p1) = task_hist (tasks s0' ! i)"
      using p'(3) i' by (simp add: inv_hist_def)
    moreover have "x \<in> set (acts_of (Task i) (pre @ (a, x) # p1))"
      using a by (simp add: mem_acts_of[symmetric])
    ultimately have "x \<in> set (produced (t_collector (tasks s0' ! i)) j)"
      using pc assms(2) by (auto simp: task_hist_def split: if_splits)
    then show False using produced_no_status assms(2) by blast
  qed
  show ?thesis using a tc(2) c1 c2 c3 c4 by blast
qed

theorem status_samples_come_last_witness:
  "fst (run [demo_bgp, demo_ospf] 0 0 demo_sched)
     = take 16 demo_trace
       @ (Task 1, A_Send (ConstMetric frrCollectorUp GaugeValue 0 [''ospf''])) # drop 17 demo_trace
   \<and> is_status (A_Send (ConstMetric frrCollectorUp GaugeValue 0 [''ospf'']))
   \<and> (Task 1, A_CollectReturn) \<in> set (take 16 demo_trace)
   \<and> (Task 1, A_CollectErrors) \<in> set (take 16 demo_trace)
   \<and> (Task 1, A_ErrSend) \<in> set (take 16 demo_trace)
   \<and> (Task 1, A_Send (DomainMetric ''o1'')) \<notin> set (drop 17 demo_trace)"
  using status_samples_come_last[of "[demo_bgp, demo_ospf]" 0 0 demo_sched "take 16 demo_trace"
      "Task 1" "A_Send (ConstMetric frrCollectorUp GaugeValue 0 [''ospf''])" "drop 17 demo_trace"]
  by (simp add: demo_run demo_trace_def)

text \<open>
  C10. In every run, nothing but the increment of the scrape counter precedes the write
  of the \<open>frr_scrapes_total\<close> sample: it is the first sample of the sink and no goroutine
  has been started. When \<open>Collect\<close> writes the \<open>frr_up\<close> sample, \<open>wg.Wait()\<close> and
  \<open>processErrors\<close> have returned and every collector's goroutine has written its up sample
  and its duration sample and has called \<open>wg.Done()\<close>; nothing happens after that write.
\<close>

theorem scrapes_first_frrUp_last:
  assumes "fst (run cs n k sched) = pre @ (a, A_Send m) # post"
  shows "(desc_of m = Some frrScrapesTotal \<longrightarrow> a = Main \<and> pre = [(Main, A_Incr)])
       \<and> (desc_of m = Some frrUp \<longrightarrow>
            a = Main \<and> post = []
            \<and> (Main, A_Wait) \<in> set pre \<and> (\<exists>c. (Main, A_ProcessErrors c) \<in> set pre)
            \<and> (\<forall>i<length cs.
                 (Task i, A_WgDone) \<in> set pre
                 \<and> (\<exists>v. (Task i, A_Send (ConstMetric frrCollectorUp GaugeValue v [Name (cs ! i)]))
                        \<in> set pre)
                 \<and> (\<exists>d. (Task i, A_Send (ConstMetric frrScrapeDuration GaugeValue d [Name (cs ! i)]))
                        \<in> set pre)))"
proof (intro conjI impI)
  from run_split[OF assms] obtain sched1 b sched2 s0 s1 where
    r1: "run cs n k sched1 = (pre, s0)" and st: "step b s0 = Some ((a, A_Send m), s1)" by blast
  have b: "b = a" using step_actor[OF st] by simp
  note p = run_parts[OF r1]
  {
    assume d: "desc_of m = Some frrScrapesTotal"
    show a: "a = Main"
      using task_sends[of _ s0 m s1] st b d by (cases a) auto
    have pc: "mpc s0 = M_Scrapes"
      using main_sends_scrapes st a b d by blast
    have "length (tasks s0) = 0"
      using length_tasks[OF p(2)] pc by simp
    then have "\<And>j. acts_of (Task j) pre = []"
      using p(3) by (simp add: inv_hist_def)
    from only_main[OF this] have "pre = map (Pair Main) (main_hist s0)"
      using p(3) by (simp add: inv_hist_def)
    then show "pre = [(Main, A_Incr)]"
      using pc by (simp add: main_hist_def)
  }
  {
    assume d: "desc_of m = Some frrUp"
    then obtain vt v ls where m: "m = ConstMetric frrUp vt v ls"
      by (cases m) auto
    from frrUp_is_last[OF assms[unfolded m]] show a: "a = Main" and "post = []" by simp_all
    have pc: "mpc s0 = M_FrrUp"
      using main_sends_frrUp st a b m by blast
    then have j: "joined (mpc s0)" by simp
    note jt = joined_tasks[OF p(2) p(4) j]
    have mh: "acts_of Main pre = main_hist s0" using p(3) by (simp add: inv_hist_def)
    show "(Main, A_Wait) \<in> set pre"
      using mh pc by (simp add: mem_acts_of main_hist_def)
    have "(Main, A_ProcessErrors (errCount s0)) \<in> set pre"
      using mh pc by (simp add: mem_acts_of main_hist_def)
    then show "\<exists>c. (Main, A_ProcessErrors c) \<in> set pre" by blast
    show "\<forall>i<length cs.
        (Task i, A_WgDone) \<in> set pre
        \<and> (\<exists>v. (Task i, A_Send (ConstMetric frrCollectorUp GaugeValue v [Name (cs ! i)])) \<in> set pre)
        \<and> (\<exists>d. (Task i, A_Send (ConstMetric frrScrapeDuration GaugeValue d [Name (cs ! i)]))
              \<in> set pre)"
    proof (intro allI impI)
      fix i assume i: "i < length cs"
      then have it: "i < length (tasks s0)" using jt(1) by simp
      have h: "acts_of (Task i) pre = task_hist (tasks s0 ! i)"
        using p(3) it by (simp add: inv_hist_def)
      have ex: "t_pc (tasks s0 ! i) = T_Exit" using jt(2) it by simp
      have col: "t_collector (tasks s0 ! i) = cs ! i"
        using task_collector(1)[OF p(2) it] .
      note e = exit_hist_mem[OF ex, unfolded col]
      show "(Task i, A_WgDone) \<in> set pre
        \<and> (\<exists>v. (Task i, A_Send (ConstMetric frrCollectorUp GaugeValue v [Name (cs ! i)])) \<in> set pre)
        \<and> (\<exists>d. (Task i, A_Send (ConstMetric frrScrapeDuration GaugeValue d [Name (cs ! i)]))
              \<in> set pre)"
        using e h by (auto simp: mem_acts_of up_sample_def duration_sample_def)
    qed
  }
qed

theorem scrapes_first_frrUp_last_witness:
  "fst (run [demo_bgp, demo_ospf] 0 0 demo_sched)
     = [(Main, A_Incr)] @ (Main, A_Send (ConstMetric frrScrapesTotal CounterValue 1 []))
        # drop 2 demo_trace
   \<and> fst (run [demo_bgp, demo_ospf] 0 0 demo_sched)
     = take 28 demo_trace @ (Main, A_Send (ConstMetric frrUp GaugeValue 1 [])) # []
   \<and> (Main, A_Wait) \<in> set (take 28 demo_trace)
   \<and> (Task 0, A_WgDone) \<in> set (take 28 demo_trace)
   \<and> (Task 1, A_WgDone) \<in> set (take 28 demo_trace)"
  using scrapes_first_frrUp_last[of "[demo_bgp, demo_ospf]" 0 0 demo_sched "[(Main, A_Incr)]"
      Main "ConstMetric frrScrapesTotal CounterValue 1 []" "drop 2 demo_trace"]
    scrapes_first_frrUp_last[of "[demo_bgp, demo_ospf]" 0 0 demo_sched "take 28 demo_trace"
      Main "ConstMetric frrUp GaugeValue 1 []" "[]"]
  by (simp add: demo_run demo_trace_def)

end
